theory Spec2Isabelle
  imports Main
begin

section \<open>Data model\<close>

text \<open>
  The collector is a Go program: \<open>main.go\<close> (the poll loop and the consumer of the
  results channel), \<open>client/helpers.go\<close> (cursor extraction and re-serialisation) and two
  versions of the Okta client. The version of the file \<open>part_001\<close> has
  \<open>getLogsRequest\<close> and rejects unexpected status codes; its functions keep their source
  names here. The version that follows \<open>main.go\<close> in the file \<open>part_000\<close> inlines
  the first page into \<open>GetLogs\<close>; its functions carry the suffix \<open>_part000\<close>.

  A Go \<open>error\<close> is a message; a nil error is \<open>None\<close>.
\<close>

datatype error = Error string

text \<open>\<open>url.Values\<close>: a missing key reads as the nil slice.\<close>

type_synonym Values = "string \<Rightarrow> string list"

definition Values_empty :: Values where
  "Values_empty = (\<lambda>_. [])"

definition Values_Set :: "Values \<Rightarrow> string \<Rightarrow> string \<Rightarrow> Values" where
  "Values_Set v key val = v(key := [val])"

record url =
  Scheme :: string
  Host :: string
  Path :: string
  RawQuery :: string

text \<open>
  What the program reads of an \<open>http.Response\<close>: the status, the values of the
  \<open>Link\<close> header, and what \<open>ioutil.ReadAll\<close> gives for the body (bytes and error).
\<close>

record response =
  StatusCode :: int
  Status :: string
  Link :: "string list"
  Body :: "string \<times> error option"

record request =
  Method :: string
  Url :: string
  Header :: "(string \<times> string) list"
  ReqBody :: "string option"

text \<open>
  Functions of the Go standard library and of third-party packages that the program
  calls. They are parameters of the model; \<open>'j\<close> is a decoded JSON value
  (\<open>interface{}\<close>).
  \<^item> \<open>Unmarshal\<close>: \<open>json.Unmarshal\<close> of a body into \<open>[]interface{}\<close>;
  \<^item> \<open>Marshal\<close>: \<open>json.Marshal\<close> of one element;
  \<^item> \<open>MarshalValues\<close>: \<open>json.Marshal\<close> of the parameters (its error is dropped);
  \<^item> \<open>Ugly\<close>: \<open>pretty.Ugly\<close>;
  \<^item> \<open>Parse\<close>: \<open>url.Parse\<close>, \<open>None\<close> when it fails (the URL is then nil);
  \<^item> \<open>ParseQuery\<close>: \<open>url.ParseQuery\<close> as \<open>URL.Query\<close> uses it (its error is dropped);
  \<^item> \<open>Encode\<close>: \<open>Values.Encode\<close>;
  \<^item> \<open>String\<close>: \<open>URL.String\<close>;
  \<^item> \<open>ToUpper\<close>: \<open>strings.ToUpper\<close>;
  \<^item> \<open>NewRequest\<close>: the error of \<open>http.NewRequest\<close> for a method and a URL.
\<close>

record 'j lib =
  Unmarshal :: "string \<Rightarrow> error + 'j list"
  Marshal :: "'j \<Rightarrow> error + string"
  MarshalValues :: "Values \<Rightarrow> string"
  Ugly :: "string \<Rightarrow> string"
  Parse :: "string \<Rightarrow> url option"
  ParseQuery :: "string \<Rightarrow> Values"
  Encode :: "Values \<Rightarrow> string"
  String :: "url \<Rightarrow> string"
  ToUpper :: "string \<Rightarrow> string"
  NewRequest :: "string \<Rightarrow> string \<Rightarrow> error option"

text \<open>
  The network and the clock as the client sees them: \<open>sent\<close> lists the requests given
  to \<open>httpClient.Do\<close>, \<open>slept\<close> the arguments of \<open>time.Sleep\<close> in milliseconds,
  \<open>channel\<close> the strings sent on the results channel, all oldest first.
\<close>

record net =
  sent :: "request list"
  slept :: "int list"
  channel :: "string list"

text \<open>
  The server is a script: the outcomes of the successive \<open>httpClient.Do\<close> calls, a
  transport error or a response. A call that needs an outcome when the script is empty
  has not returned: its value is \<open>None\<close>.
\<close>

type_synonym script = "(error + response) list"

section \<open>The HTTP client\<close>

definition initialBackoffMS :: int where "initialBackoffMS = 1000"
definition maxBackoffMS :: int where "maxBackoffMS = 32000"
definition backoffFactor :: int where "backoffFactor = 2"
definition rateLimitHttpCode :: int where "rateLimitHttpCode = 429"
definition limit :: string where "limit = ''1000''"

record OktaClient =
  Domain :: string
  Token :: string

text \<open>
  The loop of \<open>makeRetryableHttpCall\<close>, with \<open>backoffMs\<close> as its variable. The result
  is the returned triple, the rest of the script and the new \<open>net\<close>.
\<close>

fun makeRetryableHttpCall_loop ::
  "'j lib \<Rightarrow> string \<Rightarrow> url \<Rightarrow> (string \<times> string) list \<Rightarrow> string option \<Rightarrow> int \<Rightarrow>
   script \<Rightarrow> net \<Rightarrow> ((response option \<times> string \<times> error option) \<times> script \<times> net) option" where
  "makeRetryableHttpCall_loop lib method u headers body backoffMs script w =
     (case NewRequest lib method (String lib u) of
        Some err \<Rightarrow> Some ((None, [], Some err), script, w)
      | None \<Rightarrow>
         (case script of
            [] \<Rightarrow> None
          | d # script' \<Rightarrow>
             (let w' = w\<lparr>sent := sent w @
                        [\<lparr>Method = method, Url = String lib u, Header = headers, ReqBody = body\<rparr>]\<rparr>
              in case d of
                   Inl err \<Rightarrow> Some ((None, [], Some err), script', w')
                 | Inr resp \<Rightarrow>
                     if StatusCode resp \<noteq> 200 \<and> StatusCode resp \<noteq> rateLimitHttpCode then
                       Some ((Some resp, [],
                              Some (Error (''HTTP response code: '' @ Status resp @ [CHR 0x0A]))),
                             script', w')
                     else if backoffMs > maxBackoffMS \<or> StatusCode resp \<noteq> rateLimitHttpCode then
                       Some ((Some resp, fst (Body resp), snd (Body resp)), script', w')
                     else makeRetryableHttpCall_loop lib method u headers body
                            (backoffMs * backoffFactor) script'
                            (w'\<lparr>slept := slept w' @ [backoffMs]\<rparr>))))"

definition makeRetryableHttpCall ::
  "'j lib \<Rightarrow> string \<Rightarrow> url \<Rightarrow> (string \<times> string) list \<Rightarrow> string option \<Rightarrow>
   script \<Rightarrow> net \<Rightarrow> ((response option \<times> string \<times> error option) \<times> script \<times> net) option" where
  "makeRetryableHttpCall lib method u headers body script w =
     makeRetryableHttpCall_loop lib method u headers body initialBackoffMS script w"

text \<open>The other version has no status check before the rate-limit test.\<close>

fun makeRetryableHttpCall_loop_part000 ::
  "'j lib \<Rightarrow> string \<Rightarrow> url \<Rightarrow> (string \<times> string) list \<Rightarrow> string option \<Rightarrow> int \<Rightarrow>
   script \<Rightarrow> net \<Rightarrow> ((response option \<times> string \<times> error option) \<times> script \<times> net) option" where
  "makeRetryableHttpCall_loop_part000 lib method u headers body backoffMs script w =
     (case NewRequest lib method (String lib u) of
        Some err \<Rightarrow> Some ((None, [], Some err), script, w)
      | None \<Rightarrow>
         (case script of
            [] \<Rightarrow> None
          | d # script' \<Rightarrow>
             (let w' = w\<lparr>sent := sent w @
                        [\<lparr>Method = method, Url = String lib u, Header = headers, ReqBody = body\<rparr>]\<rparr>
              in case d of
                   Inl err \<Rightarrow> Some ((None, [], Some err), script', w')
                 | Inr resp \<Rightarrow>
                     if backoffMs > maxBackoffMS \<or> StatusCode resp \<noteq> rateLimitHttpCode then
                       Some ((Some resp, fst (Body resp), snd (Body resp)), script', w')
                     else makeRetryableHttpCall_loop_part000 lib method u headers body
                            (backoffMs * backoffFactor) script'
                            (w'\<lparr>slept := slept w' @ [backoffMs]\<rparr>))))"

definition makeRetryableHttpCall_part000 ::
  "'j lib \<Rightarrow> string \<Rightarrow> url \<Rightarrow> (string \<times> string) list \<Rightarrow> string option \<Rightarrow>
   script \<Rightarrow> net \<Rightarrow> ((response option \<times> string \<times> error option) \<times> script \<times> net) option" where
  "makeRetryableHttpCall_part000 lib method u headers body script w =
     makeRetryableHttpCall_loop_part000 lib method u headers body initialBackoffMS script w"

text \<open>
  \<open>conductRequest\<close>: the verbose print of the URL is left out (standard output is not
  part of the model). On an error the response and the body are replaced by nil.
\<close>

definition conductRequest ::
  "'j lib \<Rightarrow> OktaClient \<Rightarrow> string \<Rightarrow> string \<Rightarrow> Values \<Rightarrow>
   script \<Rightarrow> net \<Rightarrow> ((response option \<times> string \<times> error option) \<times> script \<times> net) option" where
  "conductRequest lib oktaClient method0 uri params script w =
     (let urlObj0 = \<lparr>Scheme = ''https'', Host = Domain oktaClient, Path = uri, RawQuery = []\<rparr>;
          method = ToUpper lib method0;
          urlObj = (if method = ''GET'' then urlObj0\<lparr>RawQuery := Encode lib params\<rparr> else urlObj0);
          headers = [(''Accept'', ''application/json''),
                     (''Authorization'', ''SSWS '' @ Token oktaClient),
                     (''Content-Type'', ''application/json'')];
          requestBody = (if method = ''POST'' \<or> method = ''PUT''
                         then Some (MarshalValues lib params) else None)
      in case makeRetryableHttpCall lib method urlObj headers requestBody script w of
           None \<Rightarrow> None
         | Some ((response, body, err), script', w') \<Rightarrow>
             (case err of
                Some e \<Rightarrow> Some ((None, [], Some e), script', w')
              | None \<Rightarrow> Some ((response, body, None), script', w')))"

definition conductRequest_part000 ::
  "'j lib \<Rightarrow> OktaClient \<Rightarrow> string \<Rightarrow> string \<Rightarrow> Values \<Rightarrow>
   script \<Rightarrow> net \<Rightarrow> ((response option \<times> string \<times> error option) \<times> script \<times> net) option" where
  "conductRequest_part000 lib oktaClient method0 uri params script w =
     (let urlObj0 = \<lparr>Scheme = ''https'', Host = Domain oktaClient, Path = uri, RawQuery = []\<rparr>;
          method = ToUpper lib method0;
          urlObj = (if method = ''GET'' then urlObj0\<lparr>RawQuery := Encode lib params\<rparr> else urlObj0);
          headers = [(''Accept'', ''application/json''),
                     (''Authorization'', ''SSWS '' @ Token oktaClient),
                     (''Content-Type'', ''application/json'')];
          requestBody = (if method = ''POST'' \<or> method = ''PUT''
                         then Some (MarshalValues lib params) else None)
      in case makeRetryableHttpCall_part000 lib method urlObj headers requestBody script w of
           None \<Rightarrow> None
         | Some ((response, body, err), script', w') \<Rightarrow>
             (case err of
                Some e \<Rightarrow> Some ((None, [], Some e), script', w')
              | None \<Rightarrow> Some ((response, body, None), script', w')))"

section \<open>Helpers: cursor extraction and re-serialisation\<close>

text \<open>\<open>strings.HasPrefix\<close>, \<open>strings.Contains\<close> and \<open>strings.Split\<close> on a one-byte separator.\<close>

definition HasPrefix :: "string \<Rightarrow> string \<Rightarrow> bool" where
  "HasPrefix s p = (take (length p) s = p)"

fun Contains :: "string \<Rightarrow> string \<Rightarrow> bool" where
  "Contains [] sub = (sub = [])"
| "Contains (c # cs) sub = (HasPrefix (c # cs) sub \<or> Contains cs sub)"

fun Split :: "string \<Rightarrow> char \<Rightarrow> string list" where
  "Split [] sep = [[]]"
| "Split (c # cs) sep =
     (if c = sep then [] # Split cs sep
      else (case Split cs sep of [] \<Rightarrow> [[c]] | p # ps \<Rightarrow> (c # p) # ps))"

text \<open>
  The regular expression of \<open>getResultsOffset\<close> is an escaped \<open><\<close>, the lazy group
  \<open>(.*?)\<close> of characters other than the newline, an escaped \<open>>\<close> and the literal text
  that ends \<open>nextTail\<close> (a semicolon, a space and the attribute \<open>rel\<close> with the quoted
  value \<open>next\<close>).
  \<open>lazyGroup\<close> matches the group and the tail from a position just after a \<open><\<close>: it
  stops at the first position where the tail starts. \<open>FindStringSubmatch\<close> tries the
  start positions from the left and returns the whole match and the group, or nil
  (\<open>[]\<close>) when nothing matches.
\<close>

definition nextTail :: string where
  "nextTail = ''>; rel='' @ [CHR 0x22] @ ''next'' @ [CHR 0x22]"

fun lazyGroup :: "string \<Rightarrow> string \<Rightarrow> string option" where
  "lazyGroup acc [] = None"
| "lazyGroup acc (c # cs) =
     (if HasPrefix (c # cs) nextTail then Some (rev acc)
      else if c = CHR 0x0A then None
      else lazyGroup (c # acc) cs)"

fun FindStringSubmatch :: "string \<Rightarrow> string list" where
  "FindStringSubmatch [] = []"
| "FindStringSubmatch (c # cs) =
     (if c = CHR ''<'' then
        (case lazyGroup [] cs of
           Some g \<Rightarrow> [CHR ''<'' # g @ nextTail, g]
         | None \<Rightarrow> FindStringSubmatch cs)
      else FindStringSubmatch cs)"

text \<open>
  A Go run-time panic ends the process. \<open>match[1]\<close> panics when \<open>match\<close> is nil;
  \<open>nextUrl.Query()\<close> panics when \<open>url.Parse\<close> failed and \<open>nextUrl\<close> is nil. A key that
  \<open>url.ParseQuery\<close> stores always has a value, so \<open>Query()["after"]\<close> is nil or has a
  first element.
\<close>

datatype panic = IndexOutOfRange | NilDereference

fun getResultsOffset_range :: "'j lib \<Rightarrow> string list \<Rightarrow> panic + string" where
  "getResultsOffset_range lib [] = Inr []"
| "getResultsOffset_range lib (v # vs) =
     (if Contains v ''next'' then
        (let s = Split v (CHR '','') in
         if length s \<noteq> 2 then Inr []
         else
           (let match = FindStringSubmatch (s ! 1) in
            if length match \<le> 1 then Inl IndexOutOfRange
            else
              (case Parse lib (match ! 1) of
                 None \<Rightarrow> Inl NilDereference
               | Some nextUrl \<Rightarrow>
                   (case ParseQuery lib (RawQuery nextUrl) ''after'' of
                      [] \<Rightarrow> Inr []
                    | a # _ \<Rightarrow> Inr a))))
      else getResultsOffset_range lib vs)"

definition getResultsOffset :: "'j lib \<Rightarrow> response \<Rightarrow> panic + string" where
  "getResultsOffset lib resp = getResultsOffset_range lib (Link resp)"

fun convertLogsToString_range :: "'j lib \<Rightarrow> string list \<Rightarrow> 'j list \<Rightarrow> string list \<times> error option" where
  "convertLogsToString_range lib data [] = (data, None)"
| "convertLogsToString_range lib data (val # items) =
     (case Marshal lib val of
        Inl err \<Rightarrow> ([], Some err)
      | Inr plain \<Rightarrow> convertLogsToString_range lib (data @ [plain]) items)"

definition convertLogsToString :: "'j lib \<Rightarrow> 'j list \<Rightarrow> string list \<times> error option" where
  "convertLogsToString lib items = convertLogsToString_range lib [] items"

section \<open>Paginated fetch\<close>

text \<open>
  A call of the client returns, ends the process by a panic, or is still waiting for the
  network when the script is used up.
\<close>

datatype 'a exec = Returned 'a | Panicked panic | Waiting

text \<open>
  \<open>getLogsRequest\<close> changes the map \<open>params\<close> of its caller, so the new map is part of
  the result. A nil response cannot reach \<open>getResultsOffset\<close> without an error; the
  model gives that case the nil dereference Go would raise.
\<close>

definition getLogsRequest ::
  "'j lib \<Rightarrow> OktaClient \<Rightarrow> Values \<Rightarrow> string \<Rightarrow> script \<Rightarrow> net \<Rightarrow>
   ((string list \<times> string \<times> error option) \<times> Values \<times> script \<times> net) exec" where
  "getLogsRequest lib oktaClient params0 afterLink script w =
     (let params = (if afterLink \<noteq> [] then Values_Set params0 ''after'' afterLink else params0)
      in case conductRequest lib oktaClient ''GET'' ''/api/v1/logs'' params script w of
           None \<Rightarrow> Waiting
         | Some ((response, body, err), script', w') \<Rightarrow>
             (case err of
                Some (Error e) \<Rightarrow>
                  Returned (([], [], Some (Error (''Error conducting request: '' @ e @ [CHR 0x0A]))),
                            params, script', w')
              | None \<Rightarrow>
                  (case Unmarshal lib body of
                     Inl (Error e) \<Rightarrow>
                       Returned (([], [],
                                  Some (Error (''Error unmarshalling response body: '' @ e @ [CHR 0x0A]))),
                                 params, script', w')
                   | Inr tmpEventsRaw \<Rightarrow>
                       (case convertLogsToString lib tmpEventsRaw of
                          (_, Some (Error e)) \<Rightarrow>
                            Returned (([], [],
                                       Some (Error (''Error converting logs to strings: '' @ e @ [CHR 0x0A]))),
                                      params, script', w')
                        | (events, None) \<Rightarrow>
                            (case response of
                               None \<Rightarrow> Panicked NilDereference
                             | Some resp \<Rightarrow>
                                 (case getResultsOffset lib resp of
                                    Inl p \<Rightarrow> Panicked p
                                  | Inr newAfterLink \<Rightarrow>
                                      Returned ((events, newAfterLink, None), params, script', w')))))))"

lemma makeRetryableHttpCall_loop_consumes:
  "makeRetryableHttpCall_loop lib meth u headers body backoffMs script w =
     Some ((resp, b, None), script', w') \<Longrightarrow> length script' < length script"
proof (induction lib meth u headers body backoffMs script w
       rule: makeRetryableHttpCall_loop.induct)
  case (1 lib meth u headers body backoffMs script w)
  show ?case
  proof (cases script)
    case Nil
    with "1.prems" show ?thesis by (simp split: option.splits)
  next
    case (Cons d rest)
    show ?thesis
    proof (cases d)
      case (Inl e)
      with "1.prems" Cons show ?thesis by (simp split: option.splits)
    next
      case (Inr r)
      with "1.prems" Cons "1.IH" show ?thesis
        by (fastforce simp: Let_def split: option.splits if_splits)
    qed
  qed
qed

lemma makeRetryableHttpCall_loop_part000_consumes:
  "makeRetryableHttpCall_loop_part000 lib meth u headers body backoffMs script w =
     Some ((resp, b, None), script', w') \<Longrightarrow> length script' < length script"
proof (induction lib meth u headers body backoffMs script w
       rule: makeRetryableHttpCall_loop_part000.induct)
  case (1 lib meth u headers body backoffMs script w)
  show ?case
  proof (cases script)
    case Nil
    with "1.prems" show ?thesis by (simp split: option.splits)
  next
    case (Cons d rest)
    show ?thesis
    proof (cases d)
      case (Inl e)
      with "1.prems" Cons show ?thesis by (simp split: option.splits)
    next
      case (Inr r)
      with "1.prems" Cons "1.IH" show ?thesis
        by (fastforce simp: Let_def split: option.splits if_splits)
    qed
  qed
qed

declare makeRetryableHttpCall_loop.simps [simp del]
declare makeRetryableHttpCall_loop_part000.simps [simp del]

lemma conductRequest_consumes:
  "conductRequest lib oktaClient method uri params script w =
     Some ((resp, b, None), script', w') \<Longrightarrow> length script' < length script"
  unfolding conductRequest_def makeRetryableHttpCall_def Let_def
  by (auto split: option.splits prod.splits dest: makeRetryableHttpCall_loop_consumes)

lemma conductRequest_part000_consumes:
  "conductRequest_part000 lib oktaClient method uri params script w =
     Some ((resp, b, None), script', w') \<Longrightarrow> length script' < length script"
  unfolding conductRequest_part000_def makeRetryableHttpCall_part000_def Let_def
  by (auto split: option.splits prod.splits dest: makeRetryableHttpCall_loop_part000_consumes)

lemma getLogsRequest_consumes:
  "getLogsRequest lib oktaClient params afterLink script w =
     Returned ((events, newAfterLink, None), params', script', w') \<Longrightarrow>
   length script' < length script"
  unfolding getLogsRequest_def Let_def
  by (auto split: option.splits prod.splits sum.splits error.splits
           dest: conductRequest_consumes)

text \<open>
  The loop of \<open>GetLogs\<close> over the pages, with \<open>params\<close>, \<open>afterLink\<close> and \<open>count\<close> as
  its variables; \<open>hasNext\<close> is the test on \<open>newAfterLink\<close> that ends each round.
\<close>

function GetLogs_loop ::
  "'j lib \<Rightarrow> OktaClient \<Rightarrow> Values \<Rightarrow> string \<Rightarrow> int \<Rightarrow> script \<Rightarrow> net \<Rightarrow>
   ((int \<times> error option) \<times> script \<times> net) exec" where
  "GetLogs_loop lib oktaClient params afterLink count script w =
     (case getLogsRequest lib oktaClient params afterLink script w of
        Waiting \<Rightarrow> Waiting
      | Panicked p \<Rightarrow> Panicked p
      | Returned ((events, newAfterLink, err), params', script', w') \<Rightarrow>
          (case err of
             Some e \<Rightarrow> Returned ((- 1, Some e), script', w')
           | None \<Rightarrow>
               if newAfterLink \<noteq> [] then
                 GetLogs_loop lib oktaClient params' newAfterLink (count + int (length events)) script'
                   (w'\<lparr>channel := channel w' @ map (Ugly lib) events\<rparr>)
               else
                 Returned ((count + int (length events), None), script',
                           w'\<lparr>channel := channel w' @ map (Ugly lib) events\<rparr>)))"
  by pat_completeness auto
termination
  by (relation "measure (\<lambda>(lib, oktaClient, params, afterLink, count, script, w). length script)")
     (auto dest: getLogsRequest_consumes)

declare GetLogs_loop.simps [simp del]

definition GetLogs ::
  "'j lib \<Rightarrow> OktaClient \<Rightarrow> string \<Rightarrow> string \<Rightarrow> script \<Rightarrow> net \<Rightarrow>
   ((int \<times> error option) \<times> script \<times> net) exec" where
  "GetLogs lib oktaClient startTime endTime script w =
     (let params = Values_Set (Values_Set (Values_Set Values_empty ''limit'' limit)
                                ''since'' startTime) ''until'' endTime
      in GetLogs_loop lib oktaClient params [] 0 script w)"

text \<open>
  The other version of \<open>GetLogs\<close>: the first page is fetched before the loop, an empty
  first page returns at once, and the loop stores the cursor under the key \<open>next\<close>.
\<close>

function GetLogs_part000_loop ::
  "'j lib \<Rightarrow> OktaClient \<Rightarrow> Values \<Rightarrow> string \<Rightarrow> int \<Rightarrow> script \<Rightarrow> net \<Rightarrow>
   ((int \<times> error option) \<times> script \<times> net) exec" where
  "GetLogs_part000_loop lib oktaClient params0 afterLink count script w =
     (if afterLink \<noteq> [] then
        (let params = Values_Set params0 ''next'' afterLink
         in case conductRequest_part000 lib oktaClient ''GET'' ''/api/v1/logs'' params script w of
              None \<Rightarrow> Waiting
            | Some ((response, body, err), script', w') \<Rightarrow>
                (case err of
                   Some (Error e) \<Rightarrow>
                     Returned ((- 1, Some (Error (''Error conducting request: '' @ e @ [CHR 0x0A]))),
                               script', w')
                 | None \<Rightarrow>
                     (case Unmarshal lib body of
                        Inl (Error e) \<Rightarrow>
                          Returned ((- 1, Some (Error (''Error unmarshalling response body: '' @ e
                                                        @ [CHR 0x0A]))),
                                    script', w')
                      | Inr tmpEventsRaw \<Rightarrow>
                          (case convertLogsToString lib tmpEventsRaw of
                             (_, Some (Error e)) \<Rightarrow>
                               Returned ((- 1, Some (Error (''Error converting logs to strings: '' @ e
                                                             @ [CHR 0x0A]))),
                                         script', w')
                           | (events, None) \<Rightarrow>
                               (case response of
                                  None \<Rightarrow> Panicked NilDereference
                                | Some resp \<Rightarrow>
                                    (case getResultsOffset lib resp of
                                       Inl p \<Rightarrow> Panicked p
                                     | Inr newAfterLink \<Rightarrow>
                                         GetLogs_part000_loop lib oktaClient params newAfterLink
                                           (count + int (length events)) script'
                                           (w'\<lparr>channel := channel w' @ map (Ugly lib) events\<rparr>)))))))
      else Returned ((count, None), script, w))"
  by pat_completeness auto
termination
  by (relation "measure (\<lambda>(lib, oktaClient, params, afterLink, count, script, w). length script)")
     (auto dest: conductRequest_part000_consumes)

declare GetLogs_part000_loop.simps [simp del]

definition GetLogs_part000 ::
  "'j lib \<Rightarrow> OktaClient \<Rightarrow> string \<Rightarrow> string \<Rightarrow> script \<Rightarrow> net \<Rightarrow>
   ((int \<times> error option) \<times> script \<times> net) exec" where
  "GetLogs_part000 lib oktaClient startTime endTime script w =
     (let params = Values_Set (Values_Set (Values_Set Values_empty ''limit'' limit)
                                ''since'' startTime) ''until'' endTime
      in case conductRequest_part000 lib oktaClient ''GET'' ''/api/v1/logs'' params script w of
           None \<Rightarrow> Waiting
         | Some ((response, body, err), script', w') \<Rightarrow>
             (case err of
                Some (Error e) \<Rightarrow>
                  Returned ((- 1, Some (Error (''Error conducting request: '' @ e @ [CHR 0x0A]))),
                            script', w')
              | None \<Rightarrow>
                  (case Unmarshal lib body of
                     Inl (Error e) \<Rightarrow>
                       Returned ((- 1, Some (Error (''Error unmarshalling response body: '' @ e
                                                     @ [CHR 0x0A]))),
                                 script', w')
                   | Inr tmpEventsRaw \<Rightarrow>
                       (case convertLogsToString lib tmpEventsRaw of
                          (_, Some (Error e)) \<Rightarrow>
                            Returned ((- 1, Some (Error (''Error converting logs to strings: '' @ e
                                                          @ [CHR 0x0A]))),
                                      script', w')
                        | (events, None) \<Rightarrow>
                            if length events = 0 then Returned ((0, None), script', w')
                            else
                              (case response of
                                 None \<Rightarrow> Panicked NilDereference
                               | Some resp \<Rightarrow>
                                   (case getResultsOffset lib resp of
                                      Inl p \<Rightarrow> Panicked p
                                    | Inr afterLink \<Rightarrow>
                                        GetLogs_part000_loop lib oktaClient params afterLink
                                          (0 + int (length events)) script'
                                          (w'\<lparr>channel := channel w' @ map (Ugly lib) events\<rparr>)))))))"

section \<open>The poll loop and the consumer\<close>

text \<open>
  The process as \<open>main.go\<close> sees it. \<open>chnMessages\<close> is the content of the buffered
  channel, oldest first. \<open>inHand\<close> is the loop variable \<open>message\<close> of the consumer from
  the moment it has received a message until \<open>handleMessage\<close> has written it: the
  message is then no longer counted by \<open>len(resultsChannel)\<close> and not yet in the temp
  file. The temp writer, the outputs and the state store are packages outside this
  repository; their state is kept as follows. \<open>tmpFile\<close> holds the lines of the active
  temp file, \<open>LastFile\<close> the file at \<open>tmpWriter.LastFilePath\<close> (\<open>None\<close> when there is
  none), \<open>outputs\<close> the files the outputs have taken with their timestamp labels,
  \<open>saved\<close> the timestamp in the state file, and \<open>calls\<close> the calls made to these
  packages and to the clock by the poll loop, oldest first.
\<close>

datatype call = CallRotate | CallWriteToOutputs string | CallRemove | CallSave string | CallAfter int

record sys =
  chnMessages :: "string list"
  inHand :: "string option"
  tmpFile :: "string list"
  LastFile :: "string list option"
  outputs :: "(string list \<times> string) list"
  LastPollTimestamp :: string
  saved :: "string option"
  calls :: "call list"

text \<open>
  What one round of the loop meets: the clock (\<open>now\<close>, in seconds, and its RFC 3339
  text \<open>Format\<close>), the answers of the server, how many steps the consumer takes until
  \<open>GetLogs\<close> has returned (\<open>consumed\<close>), during each one-second wait (\<open>waits\<close>) and
  between the last test of the channel and \<open>Rotate\<close> (\<open>beforeRotate\<close>), and the results
  of \<open>WriteLog\<close>, \<open>WriteToOutputs\<close>, \<open>os.Remove\<close> and \<open>state.Save\<close>.
\<close>

record env =
  now :: int
  Format :: "int \<Rightarrow> string"
  answers :: script
  consumed :: nat
  waits :: "nat list"
  beforeRotate :: nat
  WriteLog :: "string \<Rightarrow> error option"
  WriteToOutputs_err :: "error option"
  Remove_err :: "error option"
  Save_ok :: bool

text \<open>
  A part of a round ends normally, ends the process through \<open>log.Fatalf\<close> (the message
  and the state at the exit), ends it by a panic, or does not end with what \<open>env\<close>
  supplies.
\<close>

datatype 'a run = Done 'a | Fatal string sys | Crash panic | Stuck

definition maxMessages :: nat where "maxMessages = 5000"

definition handleMessage :: "env \<Rightarrow> string \<Rightarrow> sys \<Rightarrow> sys run" where
  "handleMessage e message s =
     (case WriteLog e message of
        Some (Error err) \<Rightarrow> Fatal (''Unable to write to temp file: '' @ err) s
      | None \<Rightarrow> Done (s\<lparr>tmpFile := tmpFile s @ [message]\<rparr>))"

text \<open>
  The consumer is the loop \<open>for message := range chnMessages\<close> of \<open>main\<close>. It takes
  two steps for a message: the receive, which takes the oldest message off the channel,
  and the call of \<open>handleMessage\<close>, which writes it. With an empty channel and nothing
  in hand it waits. \<open>consume e n\<close> is \<open>n\<close> of its steps.
\<close>

definition consumerStep :: "env \<Rightarrow> sys \<Rightarrow> sys run" where
  "consumerStep e s =
     (case inHand s of
        Some message \<Rightarrow> handleMessage e message (s\<lparr>inHand := None\<rparr>)
      | None \<Rightarrow>
          (case chnMessages s of
             [] \<Rightarrow> Done s
           | message # rest \<Rightarrow> Done (s\<lparr>chnMessages := rest, inHand := Some message\<rparr>)))"

fun consume :: "env \<Rightarrow> nat \<Rightarrow> sys \<Rightarrow> sys run" where
  "consume e 0 s = Done s"
| "consume e (Suc n) s =
     (case consumerStep e s of
        Done s' \<Rightarrow> consume e n s'
      | other \<Rightarrow> other)"

text \<open>
  \<open>getEvents\<close>: \<open>GetLogs\<close> is a parameter, since either version of the client can stand
  behind \<open>client.NewClient\<close>. The sends of \<open>GetLogs\<close> enter the channel and the consumer
  takes \<open>consumed e\<close> steps; \<open>GetLogs\<close> cannot have returned while more than
  \<open>maxMessages\<close> wait in the channel.
\<close>

definition getEvents ::
  "('j lib \<Rightarrow> OktaClient \<Rightarrow> string \<Rightarrow> string \<Rightarrow> script \<Rightarrow> net \<Rightarrow>
      ((int \<times> error option) \<times> script \<times> net) exec) \<Rightarrow>
   'j lib \<Rightarrow> OktaClient \<Rightarrow> env \<Rightarrow> string \<Rightarrow> sys \<Rightarrow> (int \<times> int \<times> sys) run" where
  "getEvents getLogs lib oktaClient e timestamp s =
     (case getLogs lib oktaClient timestamp (Format e (now e)) (answers e)
             \<lparr>sent = [], slept = [], channel = []\<rparr> of
        Waiting \<Rightarrow> Stuck
      | Panicked p \<Rightarrow> Crash p
      | Returned ((count, err), script', w') \<Rightarrow>
          (case consume e (consumed e) (s\<lparr>chnMessages := chnMessages s @ channel w'\<rparr>) of
             Done s' \<Rightarrow>
               if length (chnMessages s') > maxMessages then Stuck
               else
                 (case err of
                    Some (Error m) \<Rightarrow> Fatal (''Unable to retrieve okta logs: '' @ m) s'
                  | None \<Rightarrow> Done (count, now e, s'))
           | Fatal m s' \<Rightarrow> Fatal m s'
           | Crash p \<Rightarrow> Crash p
           | Stuck \<Rightarrow> Stuck))"

text \<open>
  The wait \<open>for len(resultsChannel) != 0\<close>, one second at a time. It tests the channel
  only: it ends also while the consumer has a message in hand.
\<close>

fun drainWait :: "env \<Rightarrow> nat list \<Rightarrow> sys \<Rightarrow> sys run" where
  "drainWait e ws s =
     (if length (chnMessages s) \<noteq> 0 then
        (case ws of
           [] \<Rightarrow> Stuck
         | n # ws' \<Rightarrow>
             (case consume e n (s\<lparr>calls := calls s @ [CallAfter 1]\<rparr>) of
                Done s' \<Rightarrow> drainWait e ws' s'
              | other \<Rightarrow> other))
      else Done s)"

text \<open>
  \<open>Rotate\<close> closes the active temp file, opens a new one and leaves the closed file at
  \<open>LastFilePath\<close>; the poll loop drops its error. \<open>WriteToOutputs\<close> hands the file at
  the path to the outputs under the label, or fails; a path with no file fails.
\<close>

definition Rotate :: "sys \<Rightarrow> sys" where
  "Rotate s = s\<lparr>LastFile := Some (tmpFile s), tmpFile := [], calls := calls s @ [CallRotate]\<rparr>"

definition WriteToOutputs :: "env \<Rightarrow> string \<Rightarrow> sys \<Rightarrow> error + sys" where
  "WriteToOutputs e label s =
     (let s' = s\<lparr>calls := calls s @ [CallWriteToOutputs label]\<rparr>
      in case WriteToOutputs_err e of
           Some err \<Rightarrow> Inl err
         | None \<Rightarrow>
             (case LastFile s of
                None \<Rightarrow> Inl (Error ''no such file'')
              | Some f \<Rightarrow> Inr (s'\<lparr>outputs := outputs s' @ [(f, label)]\<rparr>)))"

definition Remove :: "env \<Rightarrow> sys \<Rightarrow> error + sys" where
  "Remove e s =
     (case Remove_err e of
        Some err \<Rightarrow> Inl err
      | None \<Rightarrow> Inr (s\<lparr>LastFile := None, calls := calls s @ [CallRemove]\<rparr>))"

definition Save :: "env \<Rightarrow> sys \<Rightarrow> sys" where
  "Save e s = s\<lparr>saved := (if Save_ok e then Some (LastPollTimestamp s) else saved s),
               calls := calls s @ [CallSave (LastPollTimestamp s)]\<rparr>"

text \<open>
  The block of \<open>pollEvery\<close> under \<open>if eventCount > 0\<close>: wait until the channel is
  empty, rotate, write the closed file to the outputs, remove it. The consumer runs
  beside it; what it does after the rotation goes to the new temp file and is left to
  its steps of the next round.
\<close>

definition pollEvery_copy :: "env \<Rightarrow> int \<Rightarrow> sys \<Rightarrow> sys run" where
  "pollEvery_copy e lastPollTime s1 =
     (case drainWait e (waits e) s1 of
        Done s2 \<Rightarrow>
          (case consume e (beforeRotate e) s2 of
             Done s2' \<Rightarrow>
               (case WriteToOutputs e (Format e lastPollTime) (Rotate s2') of
                  Inl (Error err) \<Rightarrow> Fatal (''Unable to write to output: '' @ err) (Rotate s2')
                | Inr s3 \<Rightarrow>
                    (case Remove e s3 of
                       Inl (Error err) \<Rightarrow> Fatal (''Unable to remove tmp file: '' @ err) s3
                     | Inr s4 \<Rightarrow> Done s4))
           | other \<Rightarrow> other)
      | other \<Rightarrow> other)"

text \<open>
  One round of the loop of \<open>pollEvery\<close>, from \<open>getEvents\<close> to the wait for the next
  poll. \<open>currentState\<close> has been set up before the loop.
\<close>

definition pollEvery_round ::
  "('j lib \<Rightarrow> OktaClient \<Rightarrow> string \<Rightarrow> string \<Rightarrow> script \<Rightarrow> net \<Rightarrow>
      ((int \<times> error option) \<times> script \<times> net) exec) \<Rightarrow>
   'j lib \<Rightarrow> OktaClient \<Rightarrow> int \<Rightarrow> env \<Rightarrow> sys \<Rightarrow> sys run" where
  "pollEvery_round getLogs lib oktaClient seconds e s =
     (case getEvents getLogs lib oktaClient e (LastPollTimestamp s) s of
        Done (eventCount, lastPollTime, s1) \<Rightarrow>
          (case (if eventCount > 0 then pollEvery_copy e lastPollTime s1 else Done s1) of
             Done s5 \<Rightarrow>
               (let s6 = Save e (s5\<lparr>LastPollTimestamp := Format e lastPollTime\<rparr>)
                in Done (s6\<lparr>calls := calls s6 @ [CallAfter seconds]\<rparr>))
           | other \<Rightarrow> other)
      | Fatal m s' \<Rightarrow> Fatal m s'
      | Crash p \<Rightarrow> Crash p
      | Stuck \<Rightarrow> Stuck)"

text \<open>The loop itself, for as many rounds as there are environments.\<close>

fun pollEvery_rounds ::
  "('j lib \<Rightarrow> OktaClient \<Rightarrow> string \<Rightarrow> string \<Rightarrow> script \<Rightarrow> net \<Rightarrow>
      ((int \<times> error option) \<times> script \<times> net) exec) \<Rightarrow>
   'j lib \<Rightarrow> OktaClient \<Rightarrow> int \<Rightarrow> env list \<Rightarrow> sys \<Rightarrow> sys run" where
  "pollEvery_rounds getLogs lib oktaClient seconds [] s = Done s"
| "pollEvery_rounds getLogs lib oktaClient seconds (e # es) s =
     (case pollEvery_round getLogs lib oktaClient seconds e s of
        Done s' \<Rightarrow> pollEvery_rounds getLogs lib oktaClient seconds es s'
      | other \<Rightarrow> other)"

text \<open>
  The producer and the consumer as two processes on the channel of capacity \<open>cap\<close>:
  a state is the messages \<open>GetLogs\<close> has still to send and the state of the process.
  A send needs room in the channel and puts the message at its end; the consumer
  receives the oldest message when it has none in hand, and calls \<open>handleMessage\<close>
  on the message in hand.
\<close>

inductive pipe :: "env \<Rightarrow> nat \<Rightarrow> string list \<times> sys \<Rightarrow> string list \<times> sys \<Rightarrow> bool"
  for e :: env and cap :: nat where
  send: "length (chnMessages s) < cap \<Longrightarrow>
         pipe e cap (m # ms, s) (ms, s\<lparr>chnMessages := chnMessages s @ [m]\<rparr>)"
| receive: "inHand s = None \<Longrightarrow> chnMessages s = m # rest \<Longrightarrow>
            pipe e cap (ms, s) (ms, s\<lparr>chnMessages := rest, inHand := Some m\<rparr>)"
| handle: "inHand s = Some m \<Longrightarrow> handleMessage e m (s\<lparr>inHand := None\<rparr>) = Done s' \<Longrightarrow>
          pipe e cap (ms, s) (ms, s')"

section \<open>Vocabulary of the statements\<close>

text \<open>An outcome of \<open>httpClient.Do\<close> that is a rate-limit response.\<close>

definition is429 :: "error + response \<Rightarrow> bool" where
  "is429 d = (case d of Inl _ \<Rightarrow> False | Inr r \<Rightarrow> StatusCode r = rateLimitHttpCode)"

text \<open>
  Stand-ins for the library functions, used to run the model on concrete inputs. A
  body is a bracketed list of numbers separated by commas, and a number is its own
  JSON text. A URL is split at its question mark, a query is read when it is one
  \<open>after\<close> parameter, and the parameters are encoded as \<open>key=value\<close> pairs, joined by
  \<open>&\<close> in the order of the keys.
\<close>

fun joinAmp :: "string list \<Rightarrow> string" where
  "joinAmp [] = []"
| "joinAmp [x] = x"
| "joinAmp (x # y # zs) = x @ ''&'' @ joinAmp (y # zs)"

definition stubLib :: "string lib" where
  "stubLib = \<lparr>Unmarshal = (\<lambda>b. if b = ''[]'' then Inr []
                           else if HasPrefix b ''['' \<and> HasPrefix (rev b) '']''
                           then Inr (Split (butlast (tl b)) (CHR '',''))
                           else Inl (Error ''invalid JSON list'')),
              Marshal = (\<lambda>v. Inr v),
              MarshalValues = (\<lambda>_. []),
              Ugly = (\<lambda>x. x),
              Parse = (\<lambda>x. Some \<lparr>Scheme = [], Host = [],
                                  Path = takeWhile (\<lambda>c. c \<noteq> CHR ''?'') x,
                                  RawQuery = drop 1 (dropWhile (\<lambda>c. c \<noteq> CHR ''?'') x)\<rparr>),
              ParseQuery = (\<lambda>q k. if k = ''after'' \<and> HasPrefix q ''after='' then [drop 6 q] else []),
              Encode = (\<lambda>v. joinAmp (concat (map (\<lambda>k. if v k = [] then []
                                                       else [k @ ''='' @ concat (v k)])
                                      [''after'', ''limit'', ''next'', ''since'', ''until'']))),
              String = (\<lambda>x. Scheme x @ ''://'' @ Host x @ Path x @ ''?'' @ RawQuery x),
              ToUpper = (\<lambda>x. x),
              NewRequest = (\<lambda>_ _. None)\<rparr>"

definition stubUrl :: url where
  "stubUrl = \<lparr>Scheme = ''https'', Host = ''h'', Path = ''/p'', RawQuery = []\<rparr>"

definition tooMany :: response where
  "tooMany = \<lparr>StatusCode = 429, Status = ''429 Too Many Requests'', Link = [], Body = (''slow down'', None)\<rparr>"

definition net0 :: net where
  "net0 = \<lparr>sent = [], slept = [], channel = []\<rparr>"

text \<open>
  A successful page: a response with status 200 whose body is read, decodes to a list
  and re-serialises, and whose \<open>Link\<close> header gives a cursor (possibly empty) without a
  panic. \<open>pageEvents\<close> are its records as \<open>convertLogsToString\<close> returns them,
  \<open>pageLines\<close> the strings sent on the channel for it, \<open>cursorOf\<close> its cursor.
\<close>

definition pageEvents :: "'j lib \<Rightarrow> response \<Rightarrow> string list option" where
  "pageEvents lib r =
     (if StatusCode r = 200 \<and> snd (Body r) = None then
        (case Unmarshal lib (fst (Body r)) of
           Inl _ \<Rightarrow> None
         | Inr items \<Rightarrow>
             (case convertLogsToString lib items of
                (events, None) \<Rightarrow> Some events
              | (_, Some _) \<Rightarrow> None))
      else None)"

definition pageCursor :: "'j lib \<Rightarrow> response \<Rightarrow> string option" where
  "pageCursor lib r = (case getResultsOffset lib r of Inl _ \<Rightarrow> None | Inr c \<Rightarrow> Some c)"

definition goodPage :: "'j lib \<Rightarrow> response \<Rightarrow> bool" where
  "goodPage lib r = (pageEvents lib r \<noteq> None \<and> pageCursor lib r \<noteq> None)"

definition pageCount :: "'j lib \<Rightarrow> response \<Rightarrow> int" where
  "pageCount lib r = (case pageEvents lib r of None \<Rightarrow> 0 | Some events \<Rightarrow> int (length events))"

definition pageLines :: "'j lib \<Rightarrow> response \<Rightarrow> string list" where
  "pageLines lib r = (case pageEvents lib r of None \<Rightarrow> [] | Some events \<Rightarrow> map (Ugly lib) events)"

definition cursorOf :: "'j lib \<Rightarrow> response \<Rightarrow> string" where
  "cursorOf lib r = (case pageCursor lib r of None \<Rightarrow> [] | Some c \<Rightarrow> c)"

text \<open>
  The library behaves on the requests of this program: \<open>http.NewRequest\<close> accepts
  them and \<open>strings.ToUpper\<close> leaves \<open>GET\<close> as it is.
\<close>

definition libOk :: "'j lib \<Rightarrow> bool" where
  "libOk lib = ((\<forall>m u. NewRequest lib m u = None) \<and> ToUpper lib ''GET'' = ''GET'')"

text \<open>The request for the logs with the given query parameters.\<close>

definition logsRequest :: "'j lib \<Rightarrow> OktaClient \<Rightarrow> Values \<Rightarrow> request" where
  "logsRequest lib oktaClient params =
     \<lparr>Method = ''GET'',
      Url = String lib \<lparr>Scheme = ''https'', Host = Domain oktaClient, Path = ''/api/v1/logs'',
                        RawQuery = Encode lib params\<rparr>,
      Header = [(''Accept'', ''application/json''),
                (''Authorization'', ''SSWS '' @ Token oktaClient),
                (''Content-Type'', ''application/json'')],
      ReqBody = None\<rparr>"

definition firstParams :: "string \<Rightarrow> string \<Rightarrow> Values" where
  "firstParams startTime endTime =
     Values_Set (Values_Set (Values_Set Values_empty ''limit'' limit) ''since'' startTime)
       ''until'' endTime"

text \<open>
  The pages read after a page with cursor \<open>afterLink\<close>, when the server answers with
  the given pages in order: none when the cursor is empty, else the next page and the
  pages after it. \<open>None\<close>: the pages end before a page with an empty cursor.
\<close>

fun pagesAfter :: "'j lib \<Rightarrow> string \<Rightarrow> response list \<Rightarrow> response list option" where
  "pagesAfter lib afterLink [] = (if afterLink = [] then Some [] else None)"
| "pagesAfter lib afterLink (p # ps) =
     (if afterLink = [] then Some []
      else map_option ((#) p) (pagesAfter lib (cursorOf lib p) ps))"

definition pagesFetched :: "'j lib \<Rightarrow> response list \<Rightarrow> response list option" where
  "pagesFetched lib pages =
     (case pages of
        [] \<Rightarrow> None
      | p # ps \<Rightarrow> map_option ((#) p) (pagesAfter lib (cursorOf lib p) ps))"

text \<open>
  The requests for these pages: each page after the first is asked for with the
  cursor of the page before it stored under \<open>key\<close>.
\<close>

fun requestsAfter ::
  "'j lib \<Rightarrow> OktaClient \<Rightarrow> string \<Rightarrow> Values \<Rightarrow> string \<Rightarrow> response list \<Rightarrow> request list" where
  "requestsAfter lib oktaClient key params afterLink [] = []"
| "requestsAfter lib oktaClient key params afterLink (p # ps) =
     logsRequest lib oktaClient (Values_Set params key afterLink) #
     requestsAfter lib oktaClient key (Values_Set params key afterLink) (cursorOf lib p) ps"

text \<open>The two versions of the client, to state what they share.\<close>

datatype version = Part001 | Part000

fun makeRetryableHttpCall_of ::
  "version \<Rightarrow> 'j lib \<Rightarrow> string \<Rightarrow> url \<Rightarrow> (string \<times> string) list \<Rightarrow> string option \<Rightarrow>
   script \<Rightarrow> net \<Rightarrow> ((response option \<times> string \<times> error option) \<times> script \<times> net) option" where
  "makeRetryableHttpCall_of Part001 = makeRetryableHttpCall"
| "makeRetryableHttpCall_of Part000 = makeRetryableHttpCall_part000"

fun GetLogs_of ::
  "version \<Rightarrow> 'j lib \<Rightarrow> OktaClient \<Rightarrow> string \<Rightarrow> string \<Rightarrow> script \<Rightarrow> net \<Rightarrow>
   ((int \<times> error option) \<times> script \<times> net) exec" where
  "GetLogs_of Part001 = GetLogs"
| "GetLogs_of Part000 = GetLogs_part000"

text \<open>
  Stand-in pages: \<open>linkNext c\<close> is a \<open>Link\<close> value with a self entry and a next entry
  for the cursor \<open>c\<close>. \<open>page12\<close> has two records and the cursor \<open>x\<close>, \<open>page3\<close> one
  record and no cursor, \<open>pageNoRecords\<close> no record and the cursor \<open>x\<close>.
\<close>

definition linkNext :: "string \<Rightarrow> string" where
  "linkNext c = ''<https://acme.okta.com/api/v1/logs>; rel='' @ [CHR 0x22] @ ''self'' @ [CHR 0x22]
     @ '', <https://acme.okta.com/api/v1/logs?after='' @ c @ nextTail"

definition page12 :: response where
  "page12 = \<lparr>StatusCode = 200, Status = ''200 OK'', Link = [linkNext ''x''], Body = (''[1,2]'', None)\<rparr>"

definition page3 :: response where
  "page3 = \<lparr>StatusCode = 200, Status = ''200 OK'', Link = [], Body = (''[3]'', None)\<rparr>"

definition pageNoRecords :: response where
  "pageNoRecords = \<lparr>StatusCode = 200, Status = ''200 OK'', Link = [linkNext ''x''], Body = (''[]'', None)\<rparr>"

definition stubClient :: OktaClient where
  "stubClient = \<lparr>Domain = ''acme.okta.com'', Token = ''secret''\<rparr>"

text \<open>
  A response with status 500 whose body is an empty list, and a \<open>Link\<close> value whose
  next entry comes before its self entry.
\<close>

definition serverError :: response where
  "serverError = \<lparr>StatusCode = 500, Status = ''500 Internal Server Error'', Link = [],
                   Body = (''[]'', None)\<rparr>"

definition swappedLink :: string where
  "swappedLink = ''<https://acme.okta.com/api/v1/logs?after=x>; rel='' @ [CHR 0x22] @ ''next''
     @ [CHR 0x22] @ '', <https://acme.okta.com/api/v1/logs>; rel='' @ [CHR 0x22] @ ''self''
     @ [CHR 0x22]"

text \<open>A result of \<open>GetLogs\<close> whose count is \<open>-1\<close> when it carries an error.\<close>

definition minusOneOnError :: "((int \<times> error option) \<times> script \<times> net) exec \<Rightarrow> bool" where
  "minusOneOnError r = (case r of Returned ((c, Some e), _, _) \<Rightarrow> c = - 1 | _ \<Rightarrow> True)"

text \<open>The message the consumer has in hand, as a list.\<close>

definition held :: "sys \<Rightarrow> string list" where
  "held s = (case inHand s of None \<Rightarrow> [] | Some message \<Rightarrow> [message])"

text \<open>
  A stand-in process state and environments, all with \<open>page12\<close> and \<open>page3\<close> as
  answers at time 1 unless said otherwise. In \<open>env123\<close> the consumer keeps up. In
  \<open>envRace\<close> it has received the last message and not yet written it when \<open>GetLogs\<close>
  returns, and takes no step before the rotation. \<open>envFail\<close> is \<open>env123\<close> with a failing
  write to the outputs. \<open>envEmpty\<close> answers with a page without records and without
  cursor at time 2.
\<close>

definition pageNothing :: response where
  "pageNothing = \<lparr>StatusCode = 200, Status = ''200 OK'', Link = [], Body = (''[]'', None)\<rparr>"

definition sys0 :: sys where
  "sys0 = \<lparr>chnMessages = [], inHand = None, tmpFile = [], LastFile = None, outputs = [],
           LastPollTimestamp = ''t0'', saved = Some ''t0'', calls = []\<rparr>"

definition stubFormat :: "int \<Rightarrow> string" where
  "stubFormat t = (if t = 1 then ''t1'' else ''t2'')"

definition env123 :: env where
  "env123 = \<lparr>now = 1, Format = stubFormat, answers = [Inr page12, Inr page3], consumed = 2,
            waits = [2, 1], beforeRotate = 1, WriteLog = (\<lambda>_. None), WriteToOutputs_err = None,
            Remove_err = None, Save_ok = True\<rparr>"

definition envRace :: env where
  "envRace = env123\<lparr>consumed := 5, waits := [], beforeRotate := 0\<rparr>"

definition envFail :: env where
  "envFail = env123\<lparr>WriteToOutputs_err := Some (Error ''disk full'')\<rparr>"

definition envEmpty :: env where
  "envEmpty = env123\<lparr>now := 2, answers := [Inr pageNothing]\<rparr>"

text \<open>
  The words of the claims about the next cursor. \<open>entryCursor\<close> reads one
  comma-separated entry of a \<open>Link\<close> value: the URL of a next link in it and the first
  value of its \<open>after\<close> parameter. \<open>carriesCursor\<close>: some entry of some \<open>Link\<close> value
  is a next link whose URL has a non-empty \<open>after\<close> value. \<open>usableCursor\<close> is narrower:
  the first \<open>Link\<close> value that mentions \<open>next\<close> has exactly two entries and the second
  of them is a next link whose URL has a non-empty \<open>after\<close> value.
\<close>

definition entryCursor :: "'j lib \<Rightarrow> string \<Rightarrow> string option" where
  "entryCursor lib entry =
     (case FindStringSubmatch entry of
        [whole, u] \<Rightarrow>
          (case Parse lib u of
             None \<Rightarrow> None
           | Some nextUrl \<Rightarrow>
               (case ParseQuery lib (RawQuery nextUrl) ''after'' of
                  [] \<Rightarrow> None
                | a # _ \<Rightarrow> Some a))
      | _ \<Rightarrow> None)"

definition nonEmpty :: "string option \<Rightarrow> bool" where
  "nonEmpty c = (case c of None \<Rightarrow> False | Some a \<Rightarrow> a \<noteq> [])"

definition carriesCursor :: "'j lib \<Rightarrow> response \<Rightarrow> bool" where
  "carriesCursor lib r =
     list_ex (\<lambda>v. list_ex (\<lambda>entry. nonEmpty (entryCursor lib entry)) (Split v (CHR '',''))) (Link r)"

definition usableCursor :: "'j lib \<Rightarrow> response \<Rightarrow> bool" where
  "usableCursor lib r =
     (case List.find (\<lambda>v. Contains v ''next'') (Link r) of
        None \<Rightarrow> False
      | Some v \<Rightarrow>
          (case Split v (CHR '','') of
             [selfEntry, nextEntry] \<Rightarrow> nonEmpty (entryCursor lib nextEntry)
           | _ \<Rightarrow> False))"

text \<open>
  \<open>pageTwoValues\<close> has two records; its self link and its next link, with the cursor
  \<open>x\<close>, are two values of the \<open>Link\<close> header. \<open>pageSwapped\<close> has them in one value,
  the next link first.
\<close>

definition pageTwoValues :: response where
  "pageTwoValues =
     \<lparr>StatusCode = 200, Status = ''200 OK'',
      Link = [''<https://acme.okta.com/api/v1/logs>; rel='' @ [CHR 0x22] @ ''self'' @ [CHR 0x22],
              ''<https://acme.okta.com/api/v1/logs?after=x'' @ nextTail],
      Body = (''[1,2]'', None)\<rparr>"

definition pageSwapped :: response where
  "pageSwapped = \<lparr>StatusCode = 200, Status = ''200 OK'', Link = [swappedLink], Body = (''[1,2]'', None)\<rparr>"

declare drainWait.simps [simp del]

section \<open>Retry and backoff\<close>

lemma loop_sleep:
  assumes "NewRequest lib meth (String lib u) = None"
    and "StatusCode r = rateLimitHttpCode" and "backoffMs \<le> maxBackoffMS"
  shows "makeRetryableHttpCall_loop lib meth u headers body backoffMs (Inr r # s) w =
     makeRetryableHttpCall_loop lib meth u headers body (backoffMs * backoffFactor) s
       (w\<lparr>sent := sent w @ [\<lparr>Method = meth, Url = String lib u, Header = headers, ReqBody = body\<rparr>],
          slept := slept w @ [backoffMs]\<rparr>)"
  using assms by (subst makeRetryableHttpCall_loop.simps) (simp add: rateLimitHttpCode_def)

lemma loop_cap:
  assumes "NewRequest lib meth (String lib u) = None"
    and "StatusCode r = rateLimitHttpCode" and "backoffMs > maxBackoffMS"
  shows "makeRetryableHttpCall_loop lib meth u headers body backoffMs (Inr r # s) w =
     Some ((Some r, fst (Body r), snd (Body r)), s,
       w\<lparr>sent := sent w @ [\<lparr>Method = meth, Url = String lib u, Header = headers, ReqBody = body\<rparr>]\<rparr>)"
  using assms by (subst makeRetryableHttpCall_loop.simps) (simp add: rateLimitHttpCode_def)

lemma loop_other:
  assumes "NewRequest lib meth (String lib u) = None"
    and "StatusCode r \<noteq> rateLimitHttpCode" 
  shows "makeRetryableHttpCall_loop lib meth u headers body backoffMs (Inr r # s) w =
     Some (if StatusCode r \<noteq> 200 then (Some r, [], Some (Error (''HTTP response code: '' @ Status r @ [CHR 0x0A])))
        else (Some r, fst (Body r), snd (Body r)), s,
       w\<lparr>sent := sent w @ [\<lparr>Method = meth, Url = String lib u, Header = headers, ReqBody = body\<rparr>]\<rparr>)"
  using assms by (subst makeRetryableHttpCall_loop.simps) (simp add: rateLimitHttpCode_def)

lemma loop_err:
  assumes "NewRequest lib meth (String lib u) = None"
  shows "makeRetryableHttpCall_loop lib meth u headers body backoffMs (Inl e # s) w =
     Some ((None, [], Some e), s,
       w\<lparr>sent := sent w @ [\<lparr>Method = meth, Url = String lib u, Header = headers, ReqBody = body\<rparr>]\<rparr>)"
  using assms by (subst makeRetryableHttpCall_loop.simps) (simp add: rateLimitHttpCode_def)


lemma loop_run:
  assumes nr: "NewRequest lib meth (String lib u) = None"
    and all: "\<forall>r\<in>set rs. StatusCode r = rateLimitHttpCode"
    and j: "j \<le> 6"
    and more: "length rs + j < 7 \<longrightarrow> rest \<noteq> [] \<and> \<not> is429 (hd rest)"
  shows "\<exists>res script' w'.
     makeRetryableHttpCall_loop lib meth u headers body (initialBackoffMS * backoffFactor ^ j)
        (map Inr rs @ rest) w = Some (res, script', w') \<and>
     slept w' = slept w @ map (\<lambda>k. initialBackoffMS * backoffFactor ^ k) [j..<min (j + length rs) 6] \<and>
     length (sent w') = length (sent w) + min (length rs + 1) (7 - j) \<and>
     script' = drop (min (length rs + 1) (7 - j)) (map Inr rs @ rest) \<and>
     (7 \<le> length rs + j \<longrightarrow> res = (Some (rs ! (6 - j)), fst (Body (rs ! (6 - j))), snd (Body (rs ! (6 - j)))))"
  using all j more
proof (induction rs arbitrary: j w)
  case Nil
  then obtain d rest' where rest: "rest = d # rest'" and d: "\<not> is429 d"
    by (cases rest) auto
  show ?case
  proof (cases d)
    case (Inl e)
    then show ?thesis using rest nr Nil by (simp add: loop_err)
  next
    case (Inr r)
    then have "StatusCode r \<noteq> rateLimitHttpCode" using d by (simp add: is429_def)
    then show ?thesis using rest nr Nil Inr by (simp add: loop_other)
  qed
next
  case (Cons r rs)
  have r: "StatusCode r = rateLimitHttpCode" using Cons.prems by simp
  show ?case
  proof (cases "j = 6")
    case True
    have "initialBackoffMS * backoffFactor ^ j > maxBackoffMS"
      using True by (simp add: initialBackoffMS_def backoffFactor_def maxBackoffMS_def)
    then show ?thesis using True nr r by (simp add: loop_cap)
  next
    case False
    then have j5: "j \<le> 5" using Cons.prems by simp
    have "backoffFactor ^ j \<le> backoffFactor ^ 5"
      unfolding backoffFactor_def by (rule power_increasing) (use j5 in auto)
    then have le: "initialBackoffMS * backoffFactor ^ j \<le> maxBackoffMS"
      by (simp add: initialBackoffMS_def backoffFactor_def maxBackoffMS_def)
    let ?w = "w\<lparr>sent := sent w @ [\<lparr>Method = meth, Url = String lib u, Header = headers, ReqBody = body\<rparr>],
          slept := slept w @ [initialBackoffMS * backoffFactor ^ j]\<rparr>"
    have step: "makeRetryableHttpCall_loop lib meth u headers body (initialBackoffMS * backoffFactor ^ j)
        (map Inr (r # rs) @ rest) w =
      makeRetryableHttpCall_loop lib meth u headers body (initialBackoffMS * backoffFactor ^ Suc j)
        (map Inr rs @ rest) ?w"
    proof -
      have eq: "initialBackoffMS * backoffFactor ^ j * backoffFactor = initialBackoffMS * backoffFactor ^ Suc j"
        by simp
      show ?thesis using loop_sleep [OF nr r le, of headers body "map Inr rs @ rest" w]
        unfolding eq by simp
    qed
    have "\<exists>res script' w'.
     makeRetryableHttpCall_loop lib meth u headers body (initialBackoffMS * backoffFactor ^ Suc j)
        (map Inr rs @ rest) ?w = Some (res, script', w') \<and>
     slept w' = slept ?w @ map (\<lambda>k. initialBackoffMS * backoffFactor ^ k) [Suc j..<min (Suc j + length rs) 6] \<and>
     length (sent w') = length (sent ?w) + min (length rs + 1) (7 - Suc j) \<and>
     script' = drop (min (length rs + 1) (7 - Suc j)) (map Inr rs @ rest) \<and>
     (7 \<le> length rs + Suc j \<longrightarrow> res = (Some (rs ! (6 - Suc j)), fst (Body (rs ! (6 - Suc j))), snd (Body (rs ! (6 - Suc j)))))"
      using Cons.prems j5 by (intro Cons.IH) auto
    then obtain res script' w' where
      1: "makeRetryableHttpCall_loop lib meth u headers body (initialBackoffMS * backoffFactor ^ Suc j)
        (map Inr rs @ rest) ?w = Some (res, script', w')"
      and 2: "slept w' = slept ?w @ map (\<lambda>k. initialBackoffMS * backoffFactor ^ k) [Suc j..<min (Suc j + length rs) 6]"
      and 3: "length (sent w') = length (sent ?w) + min (length rs + 1) (7 - Suc j)"
      and 4: "script' = drop (min (length rs + 1) (7 - Suc j)) (map Inr rs @ rest)"
      and 5: "7 \<le> length rs + Suc j \<longrightarrow> res = (Some (rs ! (6 - Suc j)), fst (Body (rs ! (6 - Suc j))), snd (Body (rs ! (6 - Suc j))))"
      by blast
    have a: "[j..<min (j + length (r # rs)) 6] = j # [Suc j..<min (Suc j + length rs) 6]"
    proof -
      have lt: "j < min (Suc j + length rs) 6" using j5 by auto
      have "min (j + length (r # rs)) 6 = min (Suc j + length rs) 6" by simp
      then show ?thesis using upt_conv_Cons [OF lt] by metis
    qed
    have b: "min (length (r # rs) + 1) (7 - j) = Suc (min (length rs + 1) (7 - Suc j))"
      using j5 by auto
    have c: "(r # rs) ! (6 - j) = rs ! (6 - Suc j)"
    proof -
      have "6 - j = Suc (6 - Suc j)" using j5 by simp
      then show ?thesis by simp
    qed
    show ?thesis
      unfolding step a b c using 1 2 3 4 5 by simp
  qed
qed


lemma loop_sleep_part000:
  assumes "NewRequest lib meth (String lib u) = None"
    and "StatusCode r = rateLimitHttpCode" and "backoffMs \<le> maxBackoffMS"
  shows "makeRetryableHttpCall_loop_part000 lib meth u headers body backoffMs (Inr r # s) w =
     makeRetryableHttpCall_loop_part000 lib meth u headers body (backoffMs * backoffFactor) s
       (w\<lparr>sent := sent w @ [\<lparr>Method = meth, Url = String lib u, Header = headers, ReqBody = body\<rparr>],
          slept := slept w @ [backoffMs]\<rparr>)"
  using assms by (subst makeRetryableHttpCall_loop_part000.simps) (simp add: rateLimitHttpCode_def)

lemma loop_cap_part000:
  assumes "NewRequest lib meth (String lib u) = None"
    and "StatusCode r = rateLimitHttpCode" and "backoffMs > maxBackoffMS"
  shows "makeRetryableHttpCall_loop_part000 lib meth u headers body backoffMs (Inr r # s) w =
     Some ((Some r, fst (Body r), snd (Body r)), s,
       w\<lparr>sent := sent w @ [\<lparr>Method = meth, Url = String lib u, Header = headers, ReqBody = body\<rparr>]\<rparr>)"
  using assms by (subst makeRetryableHttpCall_loop_part000.simps) (simp add: rateLimitHttpCode_def)

lemma loop_other_part000:
  assumes "NewRequest lib meth (String lib u) = None"
    and "StatusCode r \<noteq> rateLimitHttpCode" 
  shows "makeRetryableHttpCall_loop_part000 lib meth u headers body backoffMs (Inr r # s) w =
     Some ((Some r, fst (Body r), snd (Body r)), s,
       w\<lparr>sent := sent w @ [\<lparr>Method = meth, Url = String lib u, Header = headers, ReqBody = body\<rparr>]\<rparr>)"
  using assms by (subst makeRetryableHttpCall_loop_part000.simps) (simp add: rateLimitHttpCode_def)

lemma loop_err_part000:
  assumes "NewRequest lib meth (String lib u) = None"
  shows "makeRetryableHttpCall_loop_part000 lib meth u headers body backoffMs (Inl e # s) w =
     Some ((None, [], Some e), s,
       w\<lparr>sent := sent w @ [\<lparr>Method = meth, Url = String lib u, Header = headers, ReqBody = body\<rparr>]\<rparr>)"
  using assms by (subst makeRetryableHttpCall_loop_part000.simps) (simp add: rateLimitHttpCode_def)


lemma loop_run_part000:
  assumes nr: "NewRequest lib meth (String lib u) = None"
    and all: "\<forall>r\<in>set rs. StatusCode r = rateLimitHttpCode"
    and j: "j \<le> 6"
    and more: "length rs + j < 7 \<longrightarrow> rest \<noteq> [] \<and> \<not> is429 (hd rest)"
  shows "\<exists>res script' w'.
     makeRetryableHttpCall_loop_part000 lib meth u headers body (initialBackoffMS * backoffFactor ^ j)
        (map Inr rs @ rest) w = Some (res, script', w') \<and>
     slept w' = slept w @ map (\<lambda>k. initialBackoffMS * backoffFactor ^ k) [j..<min (j + length rs) 6] \<and>
     length (sent w') = length (sent w) + min (length rs + 1) (7 - j) \<and>
     script' = drop (min (length rs + 1) (7 - j)) (map Inr rs @ rest) \<and>
     (7 \<le> length rs + j \<longrightarrow> res = (Some (rs ! (6 - j)), fst (Body (rs ! (6 - j))), snd (Body (rs ! (6 - j)))))"
  using all j more
proof (induction rs arbitrary: j w)
  case Nil
  then obtain d rest' where rest: "rest = d # rest'" and d: "\<not> is429 d"
    by (cases rest) auto
  show ?case
  proof (cases d)
    case (Inl e)
    then show ?thesis using rest nr Nil by (simp add: loop_err_part000)
  next
    case (Inr r)
    then have "StatusCode r \<noteq> rateLimitHttpCode" using d by (simp add: is429_def)
    then show ?thesis using rest nr Nil Inr by (simp add: loop_other_part000)
  qed
next
  case (Cons r rs)
  have r: "StatusCode r = rateLimitHttpCode" using Cons.prems by simp
  show ?case
  proof (cases "j = 6")
    case True
    have "initialBackoffMS * backoffFactor ^ j > maxBackoffMS"
      using True by (simp add: initialBackoffMS_def backoffFactor_def maxBackoffMS_def)
    then show ?thesis using True nr r by (simp add: loop_cap_part000)
  next
    case False
    then have j5: "j \<le> 5" using Cons.prems by simp
    have "backoffFactor ^ j \<le> backoffFactor ^ 5"
      unfolding backoffFactor_def by (rule power_increasing) (use j5 in auto)
    then have le: "initialBackoffMS * backoffFactor ^ j \<le> maxBackoffMS"
      by (simp add: initialBackoffMS_def backoffFactor_def maxBackoffMS_def)
    let ?w = "w\<lparr>sent := sent w @ [\<lparr>Method = meth, Url = String lib u, Header = headers, ReqBody = body\<rparr>],
          slept := slept w @ [initialBackoffMS * backoffFactor ^ j]\<rparr>"
    have step: "makeRetryableHttpCall_loop_part000 lib meth u headers body (initialBackoffMS * backoffFactor ^ j)
        (map Inr (r # rs) @ rest) w =
      makeRetryableHttpCall_loop_part000 lib meth u headers body (initialBackoffMS * backoffFactor ^ Suc j)
        (map Inr rs @ rest) ?w"
    proof -
      have eq: "initialBackoffMS * backoffFactor ^ j * backoffFactor = initialBackoffMS * backoffFactor ^ Suc j"
        by simp
      show ?thesis using loop_sleep_part000 [OF nr r le, of headers body "map Inr rs @ rest" w]
        unfolding eq by simp
    qed
    have "\<exists>res script' w'.
     makeRetryableHttpCall_loop_part000 lib meth u headers body (initialBackoffMS * backoffFactor ^ Suc j)
        (map Inr rs @ rest) ?w = Some (res, script', w') \<and>
     slept w' = slept ?w @ map (\<lambda>k. initialBackoffMS * backoffFactor ^ k) [Suc j..<min (Suc j + length rs) 6] \<and>
     length (sent w') = length (sent ?w) + min (length rs + 1) (7 - Suc j) \<and>
     script' = drop (min (length rs + 1) (7 - Suc j)) (map Inr rs @ rest) \<and>
     (7 \<le> length rs + Suc j \<longrightarrow> res = (Some (rs ! (6 - Suc j)), fst (Body (rs ! (6 - Suc j))), snd (Body (rs ! (6 - Suc j)))))"
      using Cons.prems j5 by (intro Cons.IH) auto
    then obtain res script' w' where
      1: "makeRetryableHttpCall_loop_part000 lib meth u headers body (initialBackoffMS * backoffFactor ^ Suc j)
        (map Inr rs @ rest) ?w = Some (res, script', w')"
      and 2: "slept w' = slept ?w @ map (\<lambda>k. initialBackoffMS * backoffFactor ^ k) [Suc j..<min (Suc j + length rs) 6]"
      and 3: "length (sent w') = length (sent ?w) + min (length rs + 1) (7 - Suc j)"
      and 4: "script' = drop (min (length rs + 1) (7 - Suc j)) (map Inr rs @ rest)"
      and 5: "7 \<le> length rs + Suc j \<longrightarrow> res = (Some (rs ! (6 - Suc j)), fst (Body (rs ! (6 - Suc j))), snd (Body (rs ! (6 - Suc j))))"
      by blast
    have a: "[j..<min (j + length (r # rs)) 6] = j # [Suc j..<min (Suc j + length rs) 6]"
    proof -
      have lt: "j < min (Suc j + length rs) 6" using j5 by auto
      have "min (j + length (r # rs)) 6 = min (Suc j + length rs) 6" by simp
      then show ?thesis using upt_conv_Cons [OF lt] by metis
    qed
    have b: "min (length (r # rs) + 1) (7 - j) = Suc (min (length rs + 1) (7 - Suc j))"
      using j5 by auto
    have c: "(r # rs) ! (6 - j) = rs ! (6 - Suc j)"
    proof -
      have "6 - j = Suc (6 - Suc j)" using j5 by simp
      then show ?thesis by simp
    qed
    show ?thesis
      unfolding step a b c using 1 2 3 4 5 by simp
  qed
qed

text \<open>
  C2. In one retryable HTTP call that meets a run of rate-limit responses, the sleeps are
  \<open>initialBackoffMS * backoffFactor ^ k\<close> for \<open>k = 0, 1, ...\<close> (1000, 2000, 4000, ...
  milliseconds), none is above \<open>maxBackoffMS\<close>, and there are at most six of them: the
  seventh rate-limit response in a row is returned with its body, without a sleep. Both
  versions of the client do so.
\<close>

theorem C2_backoff_schedule:
  assumes "NewRequest lib meth (String lib u) = None"
    and "\<forall>r\<in>set rs. StatusCode r = rateLimitHttpCode"
    and "length rs < 7 \<longrightarrow> rest \<noteq> [] \<and> \<not> is429 (hd rest)"
  shows "\<exists>res script' w'.
     makeRetryableHttpCall_of v lib meth u headers body (map Inr rs @ rest) w = Some (res, script', w') \<and>
     slept w' = slept w @ map (\<lambda>k. initialBackoffMS * backoffFactor ^ k) [0..<min (length rs) 6] \<and>
     (\<forall>d\<in>set (map (\<lambda>k. initialBackoffMS * backoffFactor ^ k) [0..<min (length rs) 6]).
        d \<le> maxBackoffMS) \<and>
     length (sent w') = length (sent w) + min (length rs + 1) 7 \<and>
     script' = drop (min (length rs + 1) 7) (map Inr rs @ rest) \<and>
     (7 \<le> length rs \<longrightarrow> res = (Some (rs ! 6), fst (Body (rs ! 6)), snd (Body (rs ! 6))))"
proof -
  have bound: "\<forall>d\<in>set (map (\<lambda>k. initialBackoffMS * backoffFactor ^ k) [0..<min (length rs) 6]).
        d \<le> maxBackoffMS"
  proof
    fix d assume "d \<in> set (map (\<lambda>k. initialBackoffMS * backoffFactor ^ k) [0..<min (length rs) 6])"
    then obtain k where "k < 6" and d: "d = initialBackoffMS * backoffFactor ^ k"
      by (auto simp: image_iff)
    then have k: "k \<le> 5" by simp
    have "backoffFactor ^ k \<le> backoffFactor ^ 5"
      unfolding backoffFactor_def by (rule power_increasing) (use k in auto)
    then show "d \<le> maxBackoffMS"
      by (simp add: d initialBackoffMS_def backoffFactor_def maxBackoffMS_def)
  qed
  show ?thesis
  proof (cases v)
    case Part001
    show ?thesis
      using loop_run [OF assms(1) assms(2), of 0 rest headers body w] assms(3) bound
      unfolding Part001 makeRetryableHttpCall_of.simps makeRetryableHttpCall_def by simp
  next
    case Part000
    show ?thesis
      using loop_run_part000 [OF assms(1) assms(2), of 0 rest headers body w] assms(3) bound
      unfolding Part000 makeRetryableHttpCall_of.simps makeRetryableHttpCall_part000_def by simp
  qed
qed

theorem C2_backoff_schedule_witness:
  "\<exists>script' w'.
     makeRetryableHttpCall stubLib ''GET'' stubUrl [] None (replicate 9 (Inr tooMany)) net0
       = Some ((Some tooMany, ''slow down'', None), script', w') \<and>
     slept w' = [1000, 2000, 4000, 8000, 16000, 32000] \<and>
     length (sent w') = 7 \<and> length script' = 2"
proof -
  have run: "[0..<6] = [0, 1, 2, 3, 4, 5]"
    by (simp add: upt_rec)
  show ?thesis
    using C2_backoff_schedule [of stubLib "''GET''" stubUrl "replicate 9 tooMany" "[]"
        Part001 "[]" None net0]
    by (auto simp: stubLib_def tooMany_def rateLimitHttpCode_def net0_def map_replicate run
          initialBackoffMS_def backoffFactor_def)
qed

section \<open>Pages\<close>

lemma conductRequest_200:
  assumes "libOk lib" and "StatusCode r = 200"
  shows "conductRequest lib oktaClient ''GET'' ''/api/v1/logs'' params (Inr r # script) w =
     (case snd (Body r) of
        Some e \<Rightarrow> Some ((None, [], Some e), script,
                         w\<lparr>sent := sent w @ [logsRequest lib oktaClient params]\<rparr>)
      | None \<Rightarrow> Some ((Some r, fst (Body r), None), script,
                       w\<lparr>sent := sent w @ [logsRequest lib oktaClient params]\<rparr>))"
proof -
  have nr: "NewRequest lib m u = None" for m u
    using assms(1) by (simp add: libOk_def)
  have up: "ToUpper lib ''GET'' = ''GET''"
    using assms(1) by (simp add: libOk_def)
  have ne: "StatusCode r \<noteq> rateLimitHttpCode"
    using assms(2) by (simp add: rateLimitHttpCode_def)
  show ?thesis
    unfolding conductRequest_def makeRetryableHttpCall_def Let_def up
    by (cases "Body r") (simp add: loop_other [OF nr ne] assms(2) logsRequest_def split: option.splits)
qed

lemma conductRequest_part000_200:
  assumes "libOk lib" and "StatusCode r = 200"
  shows "conductRequest_part000 lib oktaClient ''GET'' ''/api/v1/logs'' params (Inr r # script) w =
     (case snd (Body r) of
        Some e \<Rightarrow> Some ((None, [], Some e), script,
                         w\<lparr>sent := sent w @ [logsRequest lib oktaClient params]\<rparr>)
      | None \<Rightarrow> Some ((Some r, fst (Body r), None), script,
                       w\<lparr>sent := sent w @ [logsRequest lib oktaClient params]\<rparr>))"
proof -
  have nr: "NewRequest lib m u = None" for m u
    using assms(1) by (simp add: libOk_def)
  have up: "ToUpper lib ''GET'' = ''GET''"
    using assms(1) by (simp add: libOk_def)
  have ne: "StatusCode r \<noteq> rateLimitHttpCode"
    using assms(2) by (simp add: rateLimitHttpCode_def)
  show ?thesis
    unfolding conductRequest_part000_def makeRetryableHttpCall_part000_def Let_def up
    by (cases "Body r") (simp add: loop_other_part000 [OF nr ne] assms(2) logsRequest_def split: option.splits)
qed

lemma goodPage_cases:
  assumes "goodPage lib r"
  obtains items events c where "StatusCode r = 200" and "snd (Body r) = None"
    and "Unmarshal lib (fst (Body r)) = Inr items"
    and "convertLogsToString lib items = (events, None)"
    and "getResultsOffset lib r = Inr c"
    and "pageEvents lib r = Some events" and "cursorOf lib r = c"
    and "pageCount lib r = int (length events)" and "pageLines lib r = map (Ugly lib) events"
  using assms
  unfolding goodPage_def pageEvents_def pageCursor_def cursorOf_def pageCount_def pageLines_def
  by (auto split: if_splits sum.splits prod.splits option.splits)

lemma getLogsRequest_page:
  assumes "libOk lib" and "goodPage lib r"
  shows "getLogsRequest lib oktaClient params afterLink (Inr r # script) w =
     Returned ((the (pageEvents lib r), cursorOf lib r, None),
               (if afterLink \<noteq> [] then Values_Set params ''after'' afterLink else params), script,
               w\<lparr>sent := sent w @ [logsRequest lib oktaClient
                  (if afterLink \<noteq> [] then Values_Set params ''after'' afterLink else params)]\<rparr>)"
proof -
  from assms(2) obtain items events c where r: "StatusCode r = 200" "snd (Body r) = None"
    "Unmarshal lib (fst (Body r)) = Inr items" "convertLogsToString lib items = (events, None)"
    "getResultsOffset lib r = Inr c" "pageEvents lib r = Some events" "cursorOf lib r = c"
    by (rule goodPage_cases)
  show ?thesis
    unfolding getLogsRequest_def Let_def
    by (simp add: conductRequest_200 [OF assms(1) r(1)] r)
qed

lemma getLogsRequest_Nil:
  assumes "libOk lib"
  shows "getLogsRequest lib oktaClient params afterLink [] w = Waiting"
proof -
  have nr: "NewRequest lib m u = None" for m u
    using assms by (simp add: libOk_def)
  show ?thesis
    unfolding getLogsRequest_def conductRequest_def makeRetryableHttpCall_def Let_def
    by (subst makeRetryableHttpCall_loop.simps) (simp add: nr)
qed

lemma conductRequest_part000_Nil:
  assumes "libOk lib"
  shows "conductRequest_part000 lib oktaClient ''GET'' uri params [] w = None"
proof -
  have nr: "NewRequest lib m u = None" for m u
    using assms by (simp add: libOk_def)
  show ?thesis
    unfolding conductRequest_part000_def makeRetryableHttpCall_part000_def Let_def
    by (subst makeRetryableHttpCall_loop_part000.simps) (simp add: nr)
qed

lemma GetLogs_loop_Nil:
  assumes "libOk lib"
  shows "GetLogs_loop lib oktaClient params afterLink count [] w = Waiting"
  by (subst GetLogs_loop.simps) (simp add: getLogsRequest_Nil [OF assms])

lemma GetLogs_loop_pages:
  assumes ok: "libOk lib"
    and good: "\<forall>q\<in>set (p # ps). goodPage lib q"
    and fs: "pagesAfter lib (cursorOf lib p) ps = Some fs"
  shows "GetLogs_loop lib oktaClient params afterLink count (map Inr (p # ps) @ rest) w =
     Returned ((count + pageCount lib p + sum_list (map (pageCount lib) fs), None),
               drop (length fs) (map Inr ps) @ rest,
               w\<lparr>sent := sent w @
                   logsRequest lib oktaClient
                     (if afterLink \<noteq> [] then Values_Set params ''after'' afterLink else params) #
                   requestsAfter lib oktaClient ''after''
                     (if afterLink \<noteq> [] then Values_Set params ''after'' afterLink else params)
                     (cursorOf lib p) fs,
                  channel := channel w @ pageLines lib p @ concat (map (pageLines lib) fs)\<rparr>)"
  using good fs
proof (induction ps arbitrary: p params afterLink count w fs)
  case Nil
  then have gp: "goodPage lib p" by simp
  from Nil have c: "cursorOf lib p = []" and f: "fs = []"
    by (auto split: if_splits)
  from gp obtain events where ev: "pageEvents lib p = Some events"
    "pageCount lib p = int (length events)" "pageLines lib p = map (Ugly lib) events"
    by (rule goodPage_cases)
  show ?case
    by (subst GetLogs_loop.simps) (simp add: getLogsRequest_page [OF ok gp] c f ev)
next
  case (Cons q qs)
  then have gp: "goodPage lib p" by simp
  from gp obtain events where ev: "pageEvents lib p = Some events"
    "pageCount lib p = int (length events)" "pageLines lib p = map (Ugly lib) events"
    by (rule goodPage_cases)
  show ?case
  proof (cases "cursorOf lib p = []")
    case True
    then have f: "fs = []" using Cons.prems by simp
    show ?thesis
      by (subst GetLogs_loop.simps) (simp add: getLogsRequest_page [OF ok gp] True f ev)
  next
    case False
    then obtain fs' where f: "fs = q # fs'" and fs': "pagesAfter lib (cursorOf lib q) qs = Some fs'"
      using Cons.prems by auto
    have good': "\<forall>x\<in>set (q # qs). goodPage lib x"
      using Cons.prems by simp
    let ?P = "if afterLink \<noteq> [] then Values_Set params ''after'' afterLink else params"
    let ?w = "w\<lparr>sent := sent w @ [logsRequest lib oktaClient ?P],
                 channel := channel w @ map (Ugly lib) events\<rparr>"
    have step: "GetLogs_loop lib oktaClient params afterLink count (map Inr (p # q # qs) @ rest) w =
        GetLogs_loop lib oktaClient ?P (cursorOf lib p) (count + int (length events))
          (map Inr (q # qs) @ rest) ?w"
      by (subst GetLogs_loop.simps) (simp add: getLogsRequest_page [OF ok gp] False ev)
    show ?thesis
      unfolding step Cons.IH [OF good' fs']
      by (simp add: False f ev add.assoc)
  qed
qed

lemma GetLogs_loop_waiting:
  assumes ok: "libOk lib"
    and good: "\<forall>q\<in>set (p # ps). goodPage lib q"
    and fs: "pagesAfter lib (cursorOf lib p) ps = None"
  shows "GetLogs_loop lib oktaClient params afterLink count (map Inr (p # ps)) w = Waiting"
  using good fs
proof (induction ps arbitrary: p params afterLink count w)
  case Nil
  then have gp: "goodPage lib p" by simp
  from Nil have c: "cursorOf lib p \<noteq> []"
    by (auto split: if_splits)
  show ?case
    by (subst GetLogs_loop.simps) (simp add: getLogsRequest_page [OF ok gp] c GetLogs_loop_Nil [OF ok])
next
  case (Cons q qs)
  then have gp: "goodPage lib p" by simp
  from Cons.prems have c: "cursorOf lib p \<noteq> []"
    and fs': "pagesAfter lib (cursorOf lib q) qs = None"
    by (auto split: if_splits)
  have good': "\<forall>x\<in>set (q # qs). goodPage lib x"
    using Cons.prems by simp
  from gp obtain events where ev: "pageEvents lib p = Some events"
    by (rule goodPage_cases)
  let ?P = "if afterLink \<noteq> [] then Values_Set params ''after'' afterLink else params"
  let ?w = "w\<lparr>sent := sent w @ [logsRequest lib oktaClient ?P],
               channel := channel w @ map (Ugly lib) events\<rparr>"
  have step: "GetLogs_loop lib oktaClient params afterLink count (map Inr (p # q # qs)) w =
      GetLogs_loop lib oktaClient ?P (cursorOf lib p) (count + int (length events))
        (map Inr (q # qs)) ?w"
    by (subst GetLogs_loop.simps) (simp add: getLogsRequest_page [OF ok gp] c ev)
  show ?case
    unfolding step by (rule Cons.IH [OF good' fs'])
qed

lemma GetLogs_part000_loop_pages:
  assumes ok: "libOk lib"
    and good: "\<forall>q\<in>set ps. goodPage lib q"
    and fs: "pagesAfter lib afterLink ps = Some fs"
  shows "GetLogs_part000_loop lib oktaClient params afterLink count (map Inr ps @ rest) w =
     Returned ((count + sum_list (map (pageCount lib) fs), None),
               drop (length fs) (map Inr ps) @ rest,
               w\<lparr>sent := sent w @ requestsAfter lib oktaClient ''next'' params afterLink fs,
                  channel := channel w @ concat (map (pageLines lib) fs)\<rparr>)"
  using good fs
proof (induction ps arbitrary: params afterLink count w fs)
  case Nil
  then have "afterLink = []" and "fs = []"
    by (auto split: if_splits)
  then show ?case
    by (subst GetLogs_part000_loop.simps) simp
next
  case (Cons q qs)
  show ?case
  proof (cases "afterLink = []")
    case True
    then have "fs = []" using Cons.prems by simp
    with True show ?thesis
      by (subst GetLogs_part000_loop.simps) simp
  next
    case False
    then obtain fs' where f: "fs = q # fs'" and fs': "pagesAfter lib (cursorOf lib q) qs = Some fs'"
      using Cons.prems by auto
    have gq: "goodPage lib q" and good': "\<forall>x\<in>set qs. goodPage lib x"
      using Cons.prems by simp_all
    from gq obtain items events c where r: "StatusCode q = 200" "snd (Body q) = None"
      "Unmarshal lib (fst (Body q)) = Inr items" "convertLogsToString lib items = (events, None)"
      "getResultsOffset lib q = Inr c" "pageEvents lib q = Some events" "cursorOf lib q = c"
      "pageCount lib q = int (length events)" "pageLines lib q = map (Ugly lib) events"
      by (rule goodPage_cases)
    let ?P = "Values_Set params ''next'' afterLink"
    let ?w = "w\<lparr>sent := sent w @ [logsRequest lib oktaClient ?P],
                 channel := channel w @ map (Ugly lib) events\<rparr>"
    have step: "GetLogs_part000_loop lib oktaClient params afterLink count (map Inr (q # qs) @ rest) w =
        GetLogs_part000_loop lib oktaClient ?P (cursorOf lib q) (count + int (length events))
          (map Inr qs @ rest) ?w"
      by (subst GetLogs_part000_loop.simps)
         (simp add: conductRequest_part000_200 [OF ok r(1)] False r Let_def)
    show ?thesis
      unfolding step Cons.IH [OF good' fs']
      by (simp add: False f r add.assoc)
  qed
qed

lemma GetLogs_part000_loop_waiting:
  assumes ok: "libOk lib"
    and good: "\<forall>q\<in>set ps. goodPage lib q"
    and fs: "pagesAfter lib afterLink ps = None"
  shows "GetLogs_part000_loop lib oktaClient params afterLink count (map Inr ps) w = Waiting"
  using good fs
proof (induction ps arbitrary: params afterLink count w)
  case Nil
  then have "afterLink \<noteq> []"
    by (auto split: if_splits)
  then show ?case
    by (subst GetLogs_part000_loop.simps) (simp add: conductRequest_part000_Nil [OF ok] Let_def)
next
  case (Cons q qs)
  from Cons.prems have c: "afterLink \<noteq> []"
    and fs': "pagesAfter lib (cursorOf lib q) qs = None"
    by (auto split: if_splits)
  have gq: "goodPage lib q" and good': "\<forall>x\<in>set qs. goodPage lib x"
    using Cons.prems by simp_all
  from gq obtain items events c' where r: "StatusCode q = 200" "snd (Body q) = None"
    "Unmarshal lib (fst (Body q)) = Inr items" "convertLogsToString lib items = (events, None)"
    "getResultsOffset lib q = Inr c'" "pageEvents lib q = Some events" "cursorOf lib q = c'"
    by (rule goodPage_cases)
  let ?P = "Values_Set params ''next'' afterLink"
  let ?w = "w\<lparr>sent := sent w @ [logsRequest lib oktaClient ?P],
               channel := channel w @ map (Ugly lib) events\<rparr>"
  have step: "GetLogs_part000_loop lib oktaClient params afterLink count (map Inr (q # qs)) w =
      GetLogs_part000_loop lib oktaClient ?P (cursorOf lib q) (count + int (length events))
        (map Inr qs) ?w"
    by (subst GetLogs_part000_loop.simps)
       (simp add: conductRequest_part000_200 [OF ok r(1)] c r Let_def)
  show ?case
    unfolding step by (rule Cons.IH [OF good' fs'])
qed

lemma length_requestsAfter [simp]:
  "length (requestsAfter lib oktaClient key params afterLink fs) = length fs"
  by (induction fs arbitrary: params afterLink) simp_all

lemma pagesAfter_take:
  "pagesAfter lib c ps = Some fs \<Longrightarrow> fs = take (length fs) ps"
proof (induction ps arbitrary: c fs)
  case Nil
  then show ?case by (simp split: if_splits)
next
  case (Cons q qs)
  then show ?case by (cases "c = []") auto
qed

lemma pagesAfter_cursors:
  "pagesAfter lib c ps = Some fs \<Longrightarrow>
     (\<forall>i<length fs. cursorOf lib (ps ! i) = [] \<longleftrightarrow> Suc i = length fs) \<and> (c = [] \<longleftrightarrow> fs = [])"
proof (induction ps arbitrary: c fs)
  case Nil
  then show ?case by (simp split: if_splits)
next
  case (Cons q qs)
  show ?case
  proof (cases "c = []")
    case True
    with Cons.prems show ?thesis by simp
  next
    case False
    with Cons.prems obtain fs' where f: "fs = q # fs'"
      and fs': "pagesAfter lib (cursorOf lib q) qs = Some fs'"
      by auto
    from Cons.IH [OF fs'] have IH: "\<forall>i<length fs'. cursorOf lib (qs ! i) = [] \<longleftrightarrow> Suc i = length fs'"
      and c': "cursorOf lib q = [] \<longleftrightarrow> fs' = []"
      by simp_all
    have "cursorOf lib ((q # qs) ! i) = [] \<longleftrightarrow> Suc i = length fs" if "i < length fs" for i
    proof (cases i)
      case 0
      then show ?thesis using c' f by auto
    next
      case (Suc j)
      then show ?thesis using IH f that by simp
    qed
    then show ?thesis using False f by simp
  qed
qed

lemma pagesAfter_exists:
  "c = [] \<or> (\<exists>p\<in>set ps. cursorOf lib p = []) \<Longrightarrow> \<exists>fs. pagesAfter lib c ps = Some fs"
proof (induction ps arbitrary: c)
  case Nil
  then show ?case by simp
next
  case (Cons q qs)
  show ?case
  proof (cases "c = []")
    case True
    then show ?thesis by simp
  next
    case False
    with Cons.prems have "cursorOf lib q = [] \<or> (\<exists>p\<in>set qs. cursorOf lib p = [])"
      by auto
    from Cons.IH [OF this] obtain fs where "pagesAfter lib (cursorOf lib q) qs = Some fs" ..
    with False show ?thesis by simp
  qed
qed

lemma GetLogs_pages:
  assumes ok: "libOk lib"
    and good: "\<forall>q\<in>set (p # ps). goodPage lib q"
    and fs: "pagesAfter lib (cursorOf lib p) ps = Some fs"
  shows "GetLogs lib oktaClient startTime endTime (map Inr (p # ps) @ rest) w =
     Returned ((sum_list (map (pageCount lib) (p # fs)), None),
               drop (length (p # fs)) (map Inr (p # ps)) @ rest,
               w\<lparr>sent := sent w @
                   logsRequest lib oktaClient (firstParams startTime endTime) #
                   requestsAfter lib oktaClient ''after'' (firstParams startTime endTime)
                     (cursorOf lib p) fs,
                  channel := channel w @ concat (map (pageLines lib) (p # fs))\<rparr>)"
  unfolding GetLogs_def Let_def GetLogs_loop_pages [OF ok good fs]
  by (simp add: firstParams_def)

lemma GetLogs_waiting:
  assumes ok: "libOk lib"
    and good: "\<forall>q\<in>set ps. goodPage lib q"
    and fs: "pagesFetched lib ps = None"
  shows "GetLogs lib oktaClient startTime endTime (map Inr ps) w = Waiting"
proof (cases ps)
  case Nil
  then show ?thesis
    unfolding GetLogs_def Let_def by (simp add: GetLogs_loop_Nil [OF ok])
next
  case (Cons q qs)
  with fs have "pagesAfter lib (cursorOf lib q) qs = None"
    by (simp add: pagesFetched_def)
  from GetLogs_loop_waiting [OF ok good [unfolded Cons] this] show ?thesis
    unfolding GetLogs_def Let_def Cons by simp
qed

lemma GetLogs_part000_first:
  assumes ok: "libOk lib" and gp: "goodPage lib p"
  shows "GetLogs_part000 lib oktaClient startTime endTime (Inr p # script) w =
     (if pageCount lib p = 0 then
        Returned ((0, None), script,
                  w\<lparr>sent := sent w @ [logsRequest lib oktaClient (firstParams startTime endTime)]\<rparr>)
      else
        GetLogs_part000_loop lib oktaClient (firstParams startTime endTime) (cursorOf lib p)
          (pageCount lib p) script
          (w\<lparr>sent := sent w @ [logsRequest lib oktaClient (firstParams startTime endTime)],
             channel := channel w @ pageLines lib p\<rparr>))"
proof -
  from gp obtain items events c where r: "StatusCode p = 200" "snd (Body p) = None"
    "Unmarshal lib (fst (Body p)) = Inr items" "convertLogsToString lib items = (events, None)"
    "getResultsOffset lib p = Inr c" "pageEvents lib p = Some events" "cursorOf lib p = c"
    "pageCount lib p = int (length events)" "pageLines lib p = map (Ugly lib) events"
    by (rule goodPage_cases)
  show ?thesis
    unfolding GetLogs_part000_def Let_def firstParams_def [symmetric]
    by (simp add: conductRequest_part000_200 [OF ok r(1)] r)
qed

lemma GetLogs_part000_pages:
  assumes ok: "libOk lib"
    and good: "\<forall>q\<in>set (p # ps). goodPage lib q"
    and fs: "pagesAfter lib (cursorOf lib p) ps = Some fs"
    and some: "pageCount lib p \<noteq> 0"
  shows "GetLogs_part000 lib oktaClient startTime endTime (map Inr (p # ps) @ rest) w =
     Returned ((sum_list (map (pageCount lib) (p # fs)), None),
               drop (length (p # fs)) (map Inr (p # ps)) @ rest,
               w\<lparr>sent := sent w @
                   logsRequest lib oktaClient (firstParams startTime endTime) #
                   requestsAfter lib oktaClient ''next'' (firstParams startTime endTime)
                     (cursorOf lib p) fs,
                  channel := channel w @ concat (map (pageLines lib) (p # fs))\<rparr>)"
proof -
  have gp: "goodPage lib p" and good': "\<forall>q\<in>set ps. goodPage lib q"
    using good by simp_all
  show ?thesis
    using GetLogs_part000_first [OF ok gp, of oktaClient startTime endTime "map Inr ps @ rest" w]
    by (simp add: some GetLogs_part000_loop_pages [OF ok good' fs])
qed

lemma GetLogs_part000_waiting:
  assumes ok: "libOk lib"
    and good: "\<forall>q\<in>set ps. goodPage lib q"
    and fs: "pagesFetched lib ps = None"
    and some: "ps \<noteq> [] \<longrightarrow> pageCount lib (hd ps) \<noteq> 0"
  shows "GetLogs_part000 lib oktaClient startTime endTime (map Inr ps) w = Waiting"
proof (cases ps)
  case Nil
  then show ?thesis
    unfolding GetLogs_part000_def Let_def by (simp add: conductRequest_part000_Nil [OF ok])
next
  case (Cons q qs)
  with fs have none: "pagesAfter lib (cursorOf lib q) qs = None"
    by (simp add: pagesFetched_def)
  have gq: "goodPage lib q" and good': "\<forall>x\<in>set qs. goodPage lib x"
    using good Cons by simp_all
  show ?thesis
    using GetLogs_part000_first [OF ok gq, of oktaClient startTime endTime "map Inr qs" w] some
    by (simp add: Cons GetLogs_part000_loop_waiting [OF ok good' none])
qed

section \<open>The stand-in pages\<close>

lemma libOk_stubLib: "libOk stubLib"
  by (simp add: libOk_def stubLib_def)

lemma Ugly_stubLib [simp]: "Ugly stubLib x = x"
  by (simp add: stubLib_def)

lemma cursor_linkNext_x: "getResultsOffset_range stubLib [linkNext ''x''] = Inr ''x''"
  by (simp add: linkNext_def nextTail_def HasPrefix_def stubLib_def)

lemma page12_cursor: "getResultsOffset stubLib page12 = Inr ''x''"
  by (simp add: getResultsOffset_def page12_def cursor_linkNext_x del: getResultsOffset_range.simps)

lemma pageNoRecords_cursor: "getResultsOffset stubLib pageNoRecords = Inr ''x''"
  by (simp add: getResultsOffset_def pageNoRecords_def cursor_linkNext_x del: getResultsOffset_range.simps)

lemma page3_cursor: "getResultsOffset stubLib page3 = Inr []"
  by (simp add: getResultsOffset_def page3_def)

lemma page12_events: "pageEvents stubLib page12 = Some [''1'', ''2'']"
  by (simp add: pageEvents_def page12_def stubLib_def convertLogsToString_def HasPrefix_def)

lemma page3_events: "pageEvents stubLib page3 = Some [''3'']"
  by (simp add: pageEvents_def page3_def stubLib_def convertLogsToString_def HasPrefix_def)

lemma pageNoRecords_events: "pageEvents stubLib pageNoRecords = Some []"
  by (simp add: pageEvents_def pageNoRecords_def stubLib_def convertLogsToString_def)

lemma page12_facts:
  "goodPage stubLib page12" "cursorOf stubLib page12 = ''x''" "pageCount stubLib page12 = 2"
  "pageLines stubLib page12 = [''1'', ''2'']"
  unfolding goodPage_def cursorOf_def pageCount_def pageLines_def pageCursor_def
  by (simp_all add: page12_cursor page12_events)

lemma page3_facts:
  "goodPage stubLib page3" "cursorOf stubLib page3 = []" "pageCount stubLib page3 = 1"
  "pageLines stubLib page3 = [''3'']"
  unfolding goodPage_def cursorOf_def pageCount_def pageLines_def pageCursor_def
  by (simp_all add: page3_cursor page3_events)

lemma pageNoRecords_facts:
  "goodPage stubLib pageNoRecords" "cursorOf stubLib pageNoRecords = ''x''" "pageCount stubLib pageNoRecords = 0"
  "pageLines stubLib pageNoRecords = []"
  unfolding goodPage_def cursorOf_def pageCount_def pageLines_def pageCursor_def
  by (simp_all add: pageNoRecords_cursor pageNoRecords_events)

section \<open>Pagination\<close>



section \<open>The next page and the cursor\<close>

text \<open>
  What \<open>getResultsOffset\<close> reads in the header: when it does not panic, its cursor is
  not empty exactly when the first \<open>Link\<close> value that mentions \<open>next\<close> has two entries
  and the second is a next link with a non-empty \<open>after\<close> value. Such a header has a
  next link entry that carries the cursor; the converse fails (\<open>pageTwoValues\<close>).
\<close>

lemma FindStringSubmatch_shape:
  "FindStringSubmatch s = [] \<or> (\<exists>whole g. FindStringSubmatch s = [whole, g])"
  by (induction s) (auto split: option.splits)

lemma getResultsOffset_range_usable:
  "getResultsOffset_range lib vs = Inr c \<Longrightarrow>
   (c \<noteq> []) =
     (case List.find (\<lambda>v. Contains v ''next'') vs of
        None \<Rightarrow> False
      | Some v \<Rightarrow>
          (case Split v (CHR '','') of
             [selfEntry, nextEntry] \<Rightarrow> nonEmpty (entryCursor lib nextEntry)
           | _ \<Rightarrow> False))"
proof (induction vs)
  case Nil
  then show ?case by auto
next
  case (Cons v vs)
  show ?case
  proof (cases "Contains v ''next''")
    case False
    with Cons show ?thesis by simp
  next
    case True
    show ?thesis
    proof (cases "length (Split v (CHR '','')) = 2")
      case False
      with True Cons.prems have c: "c = []" by auto
      from False have "(case Split v (CHR '','') of
             [selfEntry, nextEntry] \<Rightarrow> nonEmpty (entryCursor lib nextEntry)
           | _ \<Rightarrow> False) = False"
        by (auto split: list.splits)
      with True c show ?thesis by simp
    next
      case two: True
      then obtain selfEntry nextEntry where s: "Split v (CHR '','') = [selfEntry, nextEntry]"
        by (auto simp: length_Suc_conv numeral_2_eq_2)
      from FindStringSubmatch_shape [of nextEntry] show ?thesis
      proof
        assume "FindStringSubmatch nextEntry = []"
        with True s Cons.prems show ?thesis by (simp add: Let_def)
      next
        assume "\<exists>whole g. FindStringSubmatch nextEntry = [whole, g]"
        then obtain whole g where m: "FindStringSubmatch nextEntry = [whole, g]" by blast
        with True s Cons.prems show ?thesis
          by (auto simp: Let_def entryCursor_def nonEmpty_def split: option.splits list.splits)
      qed
    qed
  qed
qed

lemma getResultsOffset_usable:
  "getResultsOffset lib r = Inr c \<Longrightarrow> (c \<noteq> []) = usableCursor lib r"
  unfolding getResultsOffset_def usableCursor_def by (rule getResultsOffset_range_usable)

lemma cursorOf_usable:
  assumes "goodPage lib p"
  shows "(cursorOf lib p \<noteq> []) = usableCursor lib p"
proof -
  from assms obtain c where c: "getResultsOffset lib p = Inr c"
    by (auto simp: goodPage_def pageCursor_def split: sum.splits)
  then have "cursorOf lib p = c"
    by (simp add: cursorOf_def pageCursor_def)
  with getResultsOffset_usable [OF c] show ?thesis by simp
qed

lemma usableCursor_carries:
  assumes "usableCursor lib r"
  shows "carriesCursor lib r"
proof -
  from assms obtain v where f: "List.find (\<lambda>v. Contains v ''next'') (Link r) = Some v"
    by (auto simp: usableCursor_def split: option.splits)
  with assms obtain selfEntry nextEntry where s: "Split v (CHR '','') = [selfEntry, nextEntry]"
    and c: "nonEmpty (entryCursor lib nextEntry)"
    by (auto simp: usableCursor_def split: list.splits)
  from f have "v \<in> set (Link r)"
    by (auto simp: find_Some_iff)
  moreover from s have "nextEntry \<in> set (Split v (CHR '',''))" by simp
  ultimately show ?thesis
    using c unfolding carriesCursor_def list_ex_iff by blast
qed

lemma pageTwoValues_cursor: "getResultsOffset stubLib pageTwoValues = Inr []"
  by (simp add: getResultsOffset_def pageTwoValues_def nextTail_def)

lemma pageTwoValues_events: "pageEvents stubLib pageTwoValues = Some [''1'', ''2'']"
  by (simp add: pageEvents_def pageTwoValues_def stubLib_def convertLogsToString_def HasPrefix_def)

lemma pageTwoValues_facts:
  "goodPage stubLib pageTwoValues" "cursorOf stubLib pageTwoValues = []"
  "pageCount stubLib pageTwoValues = 2" "pageLines stubLib pageTwoValues = [''1'', ''2'']"
  unfolding goodPage_def cursorOf_def pageCount_def pageLines_def pageCursor_def
  by (simp_all add: pageTwoValues_cursor pageTwoValues_events)

lemma pageTwoValues_carries: "carriesCursor stubLib pageTwoValues"
  by (simp add: carriesCursor_def pageTwoValues_def entryCursor_def nonEmpty_def nextTail_def
      HasPrefix_def stubLib_def)

lemma pageSwapped_carries: "carriesCursor stubLib pageSwapped"
  by (simp add: carriesCursor_def pageSwapped_def swappedLink_def entryCursor_def nonEmpty_def
      nextTail_def HasPrefix_def stubLib_def)

lemma pageSwapped_panics:
  "GetLogs stubLib stubClient ''t0'' ''t1'' (Inr pageSwapped # script) net0 = Panicked IndexOutOfRange"
proof -
  have st: "StatusCode pageSwapped = 200" "snd (Body pageSwapped) = None"
    "fst (Body pageSwapped) = ''[1,2]''"
    by (simp_all add: pageSwapped_def)
  have ev: "Unmarshal stubLib ''[1,2]'' = Inr [''1'', ''2'']"
    "convertLogsToString stubLib [''1'', ''2''] = ([''1'', ''2''], None)"
    using page12_events
    by (simp_all add: stubLib_def convertLogsToString_def HasPrefix_def)
  have off: "getResultsOffset stubLib pageSwapped = Inl IndexOutOfRange"
    by (simp add: getResultsOffset_def pageSwapped_def swappedLink_def nextTail_def HasPrefix_def)
  have "getLogsRequest stubLib stubClient params [] (Inr pageSwapped # script) net0 =
      Panicked IndexOutOfRange" for params
    unfolding getLogsRequest_def Let_def
    by (simp add: conductRequest_200 [OF libOk_stubLib st(1)] st ev off)
  then show ?thesis
    unfolding GetLogs_def Let_def by (subst GetLogs_loop.simps) simp
qed

lemma pageNoRecords_carries: "carriesCursor stubLib pageNoRecords"
  using cursorOf_usable [OF pageNoRecords_facts(1)] usableCursor_carries
  by (simp add: pageNoRecords_facts)

text \<open>
  C5, as the code has it. After each page \<open>GetLogs\<close> sends another request exactly when
  the first \<open>Link\<close> value of the page that mentions \<open>next\<close> has two comma-separated
  entries, the second of which is a next link whose URL has a non-empty \<open>after\<close>
  value (\<open>usableCursor\<close>), whether or not the page has records: of the \<open>n\<close> pages it
  fetches, every page but the last has such a header and the last has not. The version
  that fetches the first page before its loop returns at once when that first page
  has no records, whatever its header. Once a page has no such header the fetch
  returns.
\<close>

theorem C5_next_page_iff_cursor:
  assumes ok: "libOk lib"
    and ne: "pages \<noteq> []"
    and good: "\<forall>p\<in>set pages. goodPage lib p"
    and ex: "\<exists>p\<in>set pages. \<not> usableCursor lib p"
  shows "\<exists>n res w'.
     GetLogs_of v lib oktaClient startTime endTime (map Inr pages) w =
       Returned (res, drop n (map Inr pages), w') \<and>
     length (sent w') = length (sent w) + n \<and> 0 < n \<and> n \<le> length pages \<and>
     (if v = Part000 \<and> pageCount lib (hd pages) = 0 then n = 1
      else \<forall>i<n. (Suc i < n) = usableCursor lib (pages ! i))"
proof -
  from ne obtain p ps where pages: "pages = p # ps"
    by (cases pages) auto
  have good': "\<forall>q\<in>set (p # ps). goodPage lib q"
    using good pages by simp
  have gp: "goodPage lib p"
    using good pages by simp
  have usable: "(cursorOf lib q \<noteq> []) = usableCursor lib q" if "q \<in> set (p # ps)" for q
    using good' that cursorOf_usable by blast
  have "\<exists>q\<in>set (p # ps). cursorOf lib q = []"
    using ex pages usable by blast
  then have "cursorOf lib p = [] \<or> (\<exists>q\<in>set ps. cursorOf lib q = [])"
    by auto
  then obtain fs where fs: "pagesAfter lib (cursorOf lib p) ps = Some fs"
    using pagesAfter_exists by blast
  have tk: "fs = take (length fs) ps"
    using fs by (rule pagesAfter_take)
  have len: "length fs \<le> length ps"
  proof -
    have "length fs = min (length fs) (length ps)"
      using arg_cong [OF tk, of length] by simp
    then show ?thesis by simp
  qed
  have cur: "\<forall>i<length fs. cursorOf lib (ps ! i) = [] \<longleftrightarrow> Suc i = length fs"
    and cur0: "cursorOf lib p = [] \<longleftrightarrow> fs = []"
    using pagesAfter_cursors [OF fs] by simp_all
  have iff: "(Suc i < Suc (length fs)) = usableCursor lib ((p # ps) ! i)"
    if "i < Suc (length fs)" for i
  proof -
    from that len have "(p # ps) ! i \<in> set (p # ps)"
      by (intro nth_mem) simp
    from usable [OF this] have u: "usableCursor lib ((p # ps) ! i) = (cursorOf lib ((p # ps) ! i) \<noteq> [])"
      by simp
    show ?thesis
    proof (cases i)
      case 0
      then show ?thesis using cur0 u by auto
    next
      case (Suc j)
      then have "j < length fs" using that by simp
      with cur have "cursorOf lib (ps ! j) = [] \<longleftrightarrow> Suc j = length fs" by simp
      then show ?thesis using Suc \<open>j < length fs\<close> u by auto
    qed
  qed
  show ?thesis
  proof (cases "v = Part000 \<and> pageCount lib p = 0")
    case True
    have "GetLogs_part000 lib oktaClient startTime endTime (map Inr pages) w =
        Returned ((0, None), map Inr ps,
          w\<lparr>sent := sent w @ [logsRequest lib oktaClient (firstParams startTime endTime)]\<rparr>)"
      using GetLogs_part000_first [OF ok gp, of oktaClient startTime endTime "map Inr ps" w] True
      by (simp add: pages)
    then show ?thesis
      using True pages by (intro exI [of _ 1]) simp
  next
    case False
    show ?thesis
    proof (cases v)
      case Part001
      show ?thesis
        using GetLogs_pages [OF ok good' fs, of oktaClient startTime endTime "[]" w] len iff
        unfolding Part001 GetLogs_of.simps
        by (intro exI [of _ "Suc (length fs)"]) (simp add: pages)
    next
      case Part000
      with False have some: "pageCount lib p \<noteq> 0" by simp
      show ?thesis
        using GetLogs_part000_pages [OF ok good' fs some, of oktaClient startTime endTime "[]" w]
          len iff some
        unfolding Part000 GetLogs_of.simps
        by (intro exI [of _ "Suc (length fs)"]) (simp add: pages)
    qed
  qed
qed

theorem C5_next_page_iff_cursor_witness:
  "usableCursor stubLib pageNoRecords \<and> \<not> usableCursor stubLib page3 \<and>
   (\<exists>res w'. GetLogs stubLib stubClient ''t0'' ''t1'' [Inr pageNoRecords, Inr page3] net0 =
               Returned (res, [], w') \<and> length (sent w') = 2)"
proof -
  have good: "\<forall>p\<in>set [pageNoRecords, page3]. goodPage stubLib p"
    by (simp add: pageNoRecords_facts page3_facts)
  have u1: "usableCursor stubLib pageNoRecords"
    using cursorOf_usable [OF pageNoRecords_facts(1)] by (simp add: pageNoRecords_facts)
  have u3: "\<not> usableCursor stubLib page3"
    using cursorOf_usable [OF page3_facts(1)] by (simp add: page3_facts)
  have ex: "\<exists>p\<in>set [pageNoRecords, page3]. \<not> usableCursor stubLib p"
    using u3 by simp
  from C5_next_page_iff_cursor [OF libOk_stubLib _ good ex,
      of Part001 stubClient "''t0''" "''t1''" net0]
  obtain n res w' where
    run: "GetLogs stubLib stubClient ''t0'' ''t1'' (map Inr [pageNoRecords, page3]) net0 =
       Returned (res, drop n (map Inr [pageNoRecords, page3]), w')"
    and n: "length (sent w') = length (sent net0) + n" "0 < n" "n \<le> length [pageNoRecords, page3]"
    and iff: "\<forall>i<n. (Suc i < n) = usableCursor stubLib ([pageNoRecords, page3] ! i)"
    by auto
  from iff n(2) u1 have "Suc 0 < n"
    by auto
  with n(3) have "n = 2" by simp
  with run n(1) u1 u3 show ?thesis
    by (intro conjI exI [of _ res] exI [of _ w']) (simp_all add: net0_def)
qed

text \<open>
  The claim as stated fails in three ways. The page \<open>pageTwoValues\<close> has a next link entry
  whose URL carries the cursor \<open>x\<close>, in a \<open>Link\<close> value of its own: \<open>getResultsOffset\<close>
  returns the empty cursor for a value that has not two entries, and the fetch ends
  after one request with the next page unread. The page \<open>pageSwapped\<close> has such an
  entry before its self entry: \<open>getResultsOffset\<close> panics and no request follows. On
  the version with the inlined first page, a first page with no records and the cursor
  \<open>x\<close> ends the fetch after one request.
\<close>

theorem C5_counterexample:
  "(carriesCursor stubLib pageTwoValues \<and>
    GetLogs stubLib stubClient ''t0'' ''t1'' [Inr pageTwoValues, Inr page3] net0 =
      Returned ((2, None), [Inr page3],
                net0\<lparr>sent := [logsRequest stubLib stubClient (firstParams ''t0'' ''t1'')],
                     channel := [''1'', ''2'']\<rparr>)) \<and>
   (carriesCursor stubLib pageSwapped \<and>
    GetLogs stubLib stubClient ''t0'' ''t1'' [Inr pageSwapped, Inr page3] net0 =
      Panicked IndexOutOfRange) \<and>
   (carriesCursor stubLib pageNoRecords \<and>
    GetLogs_part000 stubLib stubClient ''t0'' ''t1'' [Inr pageNoRecords, Inr page3] net0 =
      Returned ((0, None), [Inr page3],
                net0\<lparr>sent := [logsRequest stubLib stubClient (firstParams ''t0'' ''t1'')]\<rparr>))"
proof -
  have good: "\<forall>q\<in>set [pageTwoValues]. goodPage stubLib q"
    by (simp add: pageTwoValues_facts)
  have fs: "pagesAfter stubLib (cursorOf stubLib pageTwoValues) [] = Some []"
    by (simp add: pageTwoValues_facts)
  have one: "GetLogs stubLib stubClient ''t0'' ''t1'' [Inr pageTwoValues, Inr page3] net0 =
      Returned ((2, None), [Inr page3],
                net0\<lparr>sent := [logsRequest stubLib stubClient (firstParams ''t0'' ''t1'')],
                     channel := [''1'', ''2'']\<rparr>)"
    using GetLogs_pages [OF libOk_stubLib good fs, of stubClient "''t0''" "''t1''" "[Inr page3]" net0]
    by (simp add: pageTwoValues_facts net0_def)
  have two: "GetLogs_part000 stubLib stubClient ''t0'' ''t1'' [Inr pageNoRecords, Inr page3] net0 =
      Returned ((0, None), [Inr page3],
                net0\<lparr>sent := [logsRequest stubLib stubClient (firstParams ''t0'' ''t1'')]\<rparr>)"
    using GetLogs_part000_first [OF libOk_stubLib pageNoRecords_facts(1),
        of stubClient "''t0''" "''t1''" "[Inr page3]" net0]
    by (simp add: pageNoRecords_facts net0_def)
  from pageTwoValues_carries one pageSwapped_carries pageSwapped_panics [of "[Inr page3]"]
    pageNoRecords_carries two
  show ?thesis by simp
qed

section \<open>The cursor in the follow-up request\<close>

lemma requestsAfter_nth:
  "i < length fs \<Longrightarrow>
   \<exists>params'. requestsAfter lib oktaClient key params c fs ! i = logsRequest lib oktaClient params' \<and>
     params' key = [if i = 0 then c else cursorOf lib (fs ! (i - 1))] \<and>
     (\<forall>k. k \<noteq> key \<longrightarrow> params' k = params k)"
proof (induction fs arbitrary: i params c)
  case Nil
  then show ?case by simp
next
  case (Cons q qs)
  show ?case
  proof (cases i)
    case 0
    then show ?thesis
      by (intro exI [of _ "Values_Set params key c"]) (simp add: Values_Set_def fun_upd_def)
  next
    case (Suc j)
    then have "j < length qs" using Cons.prems by simp
    from Cons.IH [OF this, of "Values_Set params key c" "cursorOf lib q"]
    obtain params' where
      "requestsAfter lib oktaClient key (Values_Set params key c) (cursorOf lib q) qs ! j =
         logsRequest lib oktaClient params'"
      "params' key = [if j = 0 then cursorOf lib q else cursorOf lib (qs ! (j - 1))]"
      "\<forall>k. k \<noteq> key \<longrightarrow> params' k = Values_Set params key c k"
      by blast
    then show ?thesis
      using Suc by (intro exI [of _ params']) (auto simp: Values_Set_def nth_Cons')
  qed
qed

text \<open>
  In the version with \<open>getLogsRequest\<close>, the request for page \<open>i + 1\<close> has the cursor
  of page \<open>i\<close> as the value of \<open>after\<close>, beside \<open>limit\<close>, \<open>since\<close> and \<open>until\<close>.
\<close>

lemma GetLogs_follow_up_after:
  assumes ok: "libOk lib"
    and good: "\<forall>q\<in>set (p # ps). goodPage lib q"
    and fs: "pagesAfter lib (cursorOf lib p) ps = Some fs"
    and i: "i < length fs"
  shows "\<exists>w' res script' params'.
     GetLogs lib oktaClient startTime endTime (map Inr (p # ps) @ rest) w = Returned (res, script', w') \<and>
     sent w' ! (length (sent w) + Suc i) = logsRequest lib oktaClient params' \<and>
     params' ''after'' = [cursorOf lib ((p # ps) ! i)] \<and>
     params' ''limit'' = [limit] \<and> params' ''since'' = [startTime] \<and> params' ''until'' = [endTime]"
proof -
  from requestsAfter_nth [OF i, of lib oktaClient "''after''" "firstParams startTime endTime"
      "cursorOf lib p"]
  obtain params' where
    r: "requestsAfter lib oktaClient ''after'' (firstParams startTime endTime) (cursorOf lib p) fs ! i =
         logsRequest lib oktaClient params'"
    and a: "params' ''after'' = [if i = 0 then cursorOf lib p else cursorOf lib (fs ! (i - 1))]"
    and k: "\<forall>k. k \<noteq> ''after'' \<longrightarrow> params' k = firstParams startTime endTime k"
    by blast
  have tk: "fs = take (length fs) ps"
    using fs by (rule pagesAfter_take)
  have "i \<noteq> 0 \<Longrightarrow> fs ! (i - 1) = ps ! (i - 1)"
    using i by (subst tk) simp
  then have c: "(if i = 0 then cursorOf lib p else cursorOf lib (fs ! (i - 1))) =
      cursorOf lib ((p # ps) ! i)"
    by (cases i) simp_all
  let ?res = "(sum_list (map (pageCount lib) (p # fs)), None :: error option)"
  let ?script' = "drop (length (p # fs)) (map Inr (p # ps)) @ rest"
  let ?w' = "w\<lparr>sent := sent w @
                   logsRequest lib oktaClient (firstParams startTime endTime) #
                   requestsAfter lib oktaClient ''after'' (firstParams startTime endTime)
                     (cursorOf lib p) fs,
                  channel := channel w @ concat (map (pageLines lib) (p # fs))\<rparr>"
  have run: "GetLogs lib oktaClient startTime endTime (map Inr (p # ps) @ rest) w =
      Returned (?res, ?script', ?w')"
    by (rule GetLogs_pages [OF ok good fs])
  have nth: "sent ?w' ! (length (sent w) + Suc i) = logsRequest lib oktaClient params'"
    using r by (simp add: nth_append)
  have vals: "params' ''limit'' = [limit]" "params' ''since'' = [startTime]"
    "params' ''until'' = [endTime]"
    using k by (simp_all add: firstParams_def Values_Set_def Values_empty_def)
  from run nth a [unfolded c] vals show ?thesis
    by (intro exI [of _ ?w'] exI [of _ ?res] exI [of _ ?script'] exI [of _ params']) simp
qed

lemma GetLogs_follow_up_stub:
  "\<exists>w'. GetLogs stubLib stubClient ''t0'' ''t1'' [Inr page12, Inr page3] net0 =
          Returned ((3, None), [], w') \<and>
     map Url (sent w') =
       [''https://acme.okta.com/api/v1/logs?limit=1000&since=t0&until=t1'',
        ''https://acme.okta.com/api/v1/logs?after=x&limit=1000&since=t0&until=t1'']"
proof -
  have good: "\<forall>q\<in>set [page12, page3]. goodPage stubLib q"
    by (simp add: page12_facts page3_facts)
  have fs: "pagesAfter stubLib (cursorOf stubLib page12) [page3] = Some [page3]"
    by (simp add: page12_facts page3_facts)
  have urls: "Url (logsRequest stubLib stubClient (firstParams ''t0'' ''t1'')) =
      ''https://acme.okta.com/api/v1/logs?limit=1000&since=t0&until=t1''"
    "Url (logsRequest stubLib stubClient (Values_Set (firstParams ''t0'' ''t1'') ''after'' ''x'')) =
      ''https://acme.okta.com/api/v1/logs?after=x&limit=1000&since=t0&until=t1''"
    by (simp_all add: logsRequest_def firstParams_def Values_Set_def Values_empty_def limit_def
          stubLib_def stubClient_def)
  show ?thesis
    using GetLogs_pages [OF libOk_stubLib good fs, of stubClient "''t0''" "''t1''" "[]" net0]
    by (simp add: page12_facts page3_facts net0_def urls)
qed

text \<open>
  C8 fails on the version with the inlined first page: its loop stores the cursor under
  the key \<open>next\<close>, so the follow-up request has \<open>next=x\<close> and no \<open>after\<close> parameter.
  (The stand-in \<open>Encode\<close> writes the keys it finds, in alphabetical order.)
\<close>

theorem C8_cursor_sent_as_next:
  "\<exists>w'. GetLogs_part000 stubLib stubClient ''t0'' ''t1'' [Inr page12, Inr page3] net0 =
          Returned ((3, None), [], w') \<and>
     map Url (sent w') =
       [''https://acme.okta.com/api/v1/logs?limit=1000&since=t0&until=t1'',
        ''https://acme.okta.com/api/v1/logs?limit=1000&next=x&since=t0&until=t1'']"
proof -
  have good: "\<forall>q\<in>set [page12, page3]. goodPage stubLib q"
    by (simp add: page12_facts page3_facts)
  have fs: "pagesAfter stubLib (cursorOf stubLib page12) [page3] = Some [page3]"
    by (simp add: page12_facts page3_facts)
  have some: "pageCount stubLib page12 \<noteq> 0"
    by (simp add: page12_facts)
  have urls: "Url (logsRequest stubLib stubClient (firstParams ''t0'' ''t1'')) =
      ''https://acme.okta.com/api/v1/logs?limit=1000&since=t0&until=t1''"
    "Url (logsRequest stubLib stubClient (Values_Set (firstParams ''t0'' ''t1'') ''next'' ''x'')) =
      ''https://acme.okta.com/api/v1/logs?limit=1000&next=x&since=t0&until=t1''"
    by (simp_all add: logsRequest_def firstParams_def Values_Set_def Values_empty_def limit_def
          stubLib_def stubClient_def)
  show ?thesis
    using GetLogs_part000_pages [OF libOk_stubLib good fs some,
        of stubClient "''t0''" "''t1''" "[]" net0]
    by (simp add: page12_facts page3_facts net0_def urls)
qed

section \<open>Unexpected status codes\<close>

text \<open>
  In the version with \<open>getLogsRequest\<close>, a status other than 200 and 429 ends the call
  at once with an error: one request, no sleep. A 200 response is returned with what
  reading its body gives.
\<close>

lemma makeRetryableHttpCall_unexpected_status:
  assumes "NewRequest lib meth (String lib u) = None"
    and "StatusCode r \<noteq> 200" and "StatusCode r \<noteq> rateLimitHttpCode"
  shows "makeRetryableHttpCall lib meth u headers body (Inr r # script) w =
     Some ((Some r, [], Some (Error (''HTTP response code: '' @ Status r @ [CHR 0x0A]))), script,
           w\<lparr>sent := sent w @ [\<lparr>Method = meth, Url = String lib u, Header = headers,
                                 ReqBody = body\<rparr>]\<rparr>)"
  unfolding makeRetryableHttpCall_def using assms by (simp add: loop_other)

lemma makeRetryableHttpCall_200:
  assumes "NewRequest lib meth (String lib u) = None" and "StatusCode r = 200"
  shows "makeRetryableHttpCall lib meth u headers body (Inr r # script) w =
     Some ((Some r, fst (Body r), snd (Body r)), script,
           w\<lparr>sent := sent w @ [\<lparr>Method = meth, Url = String lib u, Header = headers,
                                 ReqBody = body\<rparr>]\<rparr>)"
  unfolding makeRetryableHttpCall_def using assms by (simp add: loop_other rateLimitHttpCode_def)

lemma GetLogs_unexpected_status:
  assumes ok: "libOk lib" and "StatusCode r \<noteq> 200" and "StatusCode r \<noteq> rateLimitHttpCode"
  shows "\<exists>e w'. GetLogs lib oktaClient startTime endTime (Inr r # script) w =
           Returned ((- 1, Some e), script, w') \<and>
         length (sent w') = length (sent w) + 1 \<and> slept w' = slept w \<and> channel w' = channel w"
proof -
  have nr: "NewRequest lib m u = None" for m u
    using ok by (simp add: libOk_def)
  show ?thesis
    unfolding GetLogs_def Let_def
    by (subst GetLogs_loop.simps)
       (simp add: getLogsRequest_def conductRequest_def Let_def
          makeRetryableHttpCall_unexpected_status [OF nr assms(2,3)])
qed

text \<open>
  C3 fails on the other version: it has no status check, so a response with status 500
  is returned like a 200 response, and when its body decodes as a list the whole fetch
  succeeds.
\<close>

theorem C3_status_passed_through:
  "(\<exists>w'. makeRetryableHttpCall_part000 stubLib ''GET'' stubUrl [] None [Inr serverError] net0 =
           Some ((Some serverError, ''[]'', None), [], w') \<and> slept w' = []) \<and>
   (\<exists>w'. GetLogs_part000 stubLib stubClient ''t0'' ''t1'' [Inr serverError] net0 =
           Returned ((0, None), [], w'))"
proof -
  have nr: "NewRequest stubLib m u = None" for m u
    by (simp add: stubLib_def)
  have ne: "StatusCode serverError \<noteq> rateLimitHttpCode"
    by (simp add: serverError_def rateLimitHttpCode_def)
  have up: "ToUpper stubLib ''GET'' = ''GET''"
    by (simp add: stubLib_def)
  have call: "makeRetryableHttpCall_part000 stubLib m u h b [Inr serverError] net0 =
      Some ((Some serverError, ''[]'', None), [],
            net0\<lparr>sent := sent net0 @ [\<lparr>Method = m, Url = String stubLib u, Header = h, ReqBody = b\<rparr>]\<rparr>)"
    for m u h b
    unfolding makeRetryableHttpCall_part000_def loop_other_part000 [OF nr ne]
    by (simp add: serverError_def)
  have un: "Unmarshal stubLib ''[]'' = Inr []"
    by (simp add: stubLib_def)
  have "\<exists>w'. GetLogs_part000 stubLib stubClient ''t0'' ''t1'' [Inr serverError] net0 =
           Returned ((0, None), [], w')"
    unfolding GetLogs_part000_def conductRequest_part000_def Let_def up
    by (simp add: call un convertLogsToString_def)
  moreover have "\<exists>w'. makeRetryableHttpCall_part000 stubLib ''GET'' stubUrl [] None
        [Inr serverError] net0 = Some ((Some serverError, ''[]'', None), [], w') \<and> slept w' = []"
    using call [of "''GET''" stubUrl "[]" None] by (auto simp: net0_def)
  ultimately show ?thesis by simp
qed

section \<open>Cursor extraction\<close>

text \<open>
  The guarded cases of \<open>getResultsOffset\<close>: no \<open>Link\<close> value mentions \<open>next\<close>, or the
  first one that does has not exactly two comma-separated parts.
\<close>

lemma getResultsOffset_no_next:
  "\<forall>v\<in>set (Link resp). \<not> Contains v ''next'' \<Longrightarrow> getResultsOffset lib resp = Inr []"
proof -
  have "\<forall>v\<in>set vs. \<not> Contains v ''next'' \<Longrightarrow> getResultsOffset_range lib vs = Inr []" for vs
    by (induction vs) simp_all
  then show "\<forall>v\<in>set (Link resp). \<not> Contains v ''next'' \<Longrightarrow> getResultsOffset lib resp = Inr []"
    by (simp add: getResultsOffset_def)
qed

lemma getResultsOffset_not_two:
  "Contains v ''next'' \<Longrightarrow> length (Split v (CHR '','')) \<noteq> 2 \<Longrightarrow>
   getResultsOffset lib (resp\<lparr>Link := v # vs\<rparr>) = Inr []"
  by (simp add: getResultsOffset_def)

text \<open>
  C6 fails: a \<open>Link\<close> value that mentions \<open>next\<close> and has two parts, the second of which
  does not match the regular expression, makes \<open>match\<close> nil and \<open>match[1]\<close> panic. Here
  the next entry comes first and the self entry second. A match whose URL \<open>url.Parse\<close>
  rejects panics as well.
\<close>

theorem C6_unmatched_link_panics:
  "getResultsOffset lib \<lparr>StatusCode = 200, Status = ''200 OK'', Link = [swappedLink],
                          Body = (''[]'', None)\<rparr> = Inl IndexOutOfRange"
  by (simp add: getResultsOffset_def swappedLink_def nextTail_def HasPrefix_def)

lemma getResultsOffset_unparsable_url:
  "Parse lib ''https://acme.okta.com/api/v1/logs?after=x'' = None \<Longrightarrow>
   getResultsOffset lib \<lparr>StatusCode = 200, Status = ''200 OK'', Link = [linkNext ''x''],
                          Body = (''[]'', None)\<rparr> = Inl NilDereference"
  by (simp add: getResultsOffset_def linkNext_def nextTail_def HasPrefix_def)

section \<open>The count on an error\<close>

lemma minusOneOnError_simps [simp]:
  "minusOneOnError Waiting" "minusOneOnError (Panicked p)"
  "minusOneOnError (Returned ((c, None), s, w))"
  "minusOneOnError (Returned ((c, Some e), s, w)) = (c = - 1)"
  by (simp_all add: minusOneOnError_def)

lemma GetLogs_part000_loop_minusOne:
  "minusOneOnError (GetLogs_part000_loop lib oktaClient params afterLink count script w)"
proof (induction lib oktaClient params afterLink count script w rule: GetLogs_part000_loop.induct)
  case (1 lib oktaClient params afterLink count script w)
  let ?params = "Values_Set params ''next'' afterLink"
  show ?case
  proof (cases "afterLink = []")
    case True
    then show ?thesis
      by (subst GetLogs_part000_loop.simps) simp
  next
    case link: False
    show ?thesis
    proof (cases "conductRequest_part000 lib oktaClient ''GET'' ''/api/v1/logs'' ?params script w")
      case None
      with link show ?thesis
        by (subst GetLogs_part000_loop.simps) (simp add: Let_def)
    next
      case (Some x)
      obtain response body err script' w' where x: "x = ((response, body, err), script', w')"
        by (cases x) auto
      note call = Some [unfolded x]
      show ?thesis
      proof (cases err)
        case (Some e0)
        then obtain e where "err = Some (Error e)" by (cases e0) simp
        with link call show ?thesis
          by (subst GetLogs_part000_loop.simps) (simp add: Let_def)
      next
        case noerr: None
        show ?thesis
        proof (cases "Unmarshal lib body")
          case (Inl e0)
          then obtain e where "Unmarshal lib body = Inl (Error e)" by (cases e0) simp
          with link call noerr show ?thesis
            by (subst GetLogs_part000_loop.simps) (simp add: Let_def)
        next
          case (Inr tmpEventsRaw)
          obtain events cerr where conv: "convertLogsToString lib tmpEventsRaw = (events, cerr)"
            by (cases "convertLogsToString lib tmpEventsRaw") auto
          show ?thesis
          proof (cases cerr)
            case (Some e0)
            then obtain e where "cerr = Some (Error e)" by (cases e0) simp
            with link call noerr Inr conv show ?thesis
              by (subst GetLogs_part000_loop.simps) (simp add: Let_def)
          next
            case convok: None
            show ?thesis
            proof (cases response)
              case None
              with link call noerr Inr conv convok show ?thesis
                by (subst GetLogs_part000_loop.simps) (simp add: Let_def)
            next
              case (Some resp)
              show ?thesis
              proof (cases "getResultsOffset lib resp")
                case (Inl p)
                with link call noerr Inr conv convok Some show ?thesis
                  by (subst GetLogs_part000_loop.simps) (simp add: Let_def)
              next
                case cursor: (Inr newAfterLink)
                have step: "GetLogs_part000_loop lib oktaClient params afterLink count script w =
                    GetLogs_part000_loop lib oktaClient ?params newAfterLink
                      (count + int (length events)) script'
                      (w'\<lparr>channel := channel w' @ map (Ugly lib) events\<rparr>)"
                  using link call noerr Inr conv convok Some cursor
                  by (subst GetLogs_part000_loop.simps) (simp add: Let_def)
                show ?thesis
                  unfolding step
                  by (rule "1.IH" [OF link refl call refl refl refl refl noerr Inr conv [symmetric]
                        convok Some cursor])
              qed
            qed
          qed
        qed
      qed
    qed
  qed
qed

lemma GetLogs_part000_minusOne:
  "minusOneOnError (GetLogs_part000 lib oktaClient startTime endTime script w)"
proof -
  let ?params = "firstParams startTime endTime"
  show ?thesis
  proof (cases "conductRequest_part000 lib oktaClient ''GET'' ''/api/v1/logs'' ?params script w")
    case None
    then show ?thesis
      unfolding GetLogs_part000_def Let_def firstParams_def [symmetric] by simp
  next
    case (Some x)
    obtain response body err script' w' where x: "x = ((response, body, err), script', w')"
      by (cases x) auto
    note call = Some [unfolded x]
    show ?thesis
    proof (cases err)
      case (Some e0)
      then obtain e where "err = Some (Error e)" by (cases e0) simp
      with call show ?thesis
        unfolding GetLogs_part000_def Let_def firstParams_def [symmetric] by simp
    next
      case noerr: None
      show ?thesis
      proof (cases "Unmarshal lib body")
        case (Inl e0)
        then obtain e where "Unmarshal lib body = Inl (Error e)" by (cases e0) simp
        with call noerr show ?thesis
          unfolding GetLogs_part000_def Let_def firstParams_def [symmetric] by simp
      next
        case (Inr tmpEventsRaw)
        obtain events cerr where conv: "convertLogsToString lib tmpEventsRaw = (events, cerr)"
          by (cases "convertLogsToString lib tmpEventsRaw") auto
        show ?thesis
        proof (cases cerr)
          case (Some e0)
          then obtain e where "cerr = Some (Error e)" by (cases e0) simp
          with call noerr Inr conv show ?thesis
            unfolding GetLogs_part000_def Let_def firstParams_def [symmetric] by simp
        next
          case convok: None
          from call noerr Inr conv convok show ?thesis
            unfolding GetLogs_part000_def Let_def firstParams_def [symmetric]
            by (simp add: GetLogs_part000_loop_minusOne split: option.split sum.split)
        qed
      qed
    qed
  qed
qed

lemma GetLogs_loop_minusOne:
  "minusOneOnError (GetLogs_loop lib oktaClient params afterLink count script w)"
proof (induction lib oktaClient params afterLink count script w rule: GetLogs_loop.induct)
  case (1 lib oktaClient params afterLink count script w)
  show ?case
    by (subst GetLogs_loop.simps)
       (auto simp: Let_def split: option.split prod.split exec.split intro: "1.IH")
qed

lemma GetLogs_minusOne:
  "minusOneOnError (GetLogs lib oktaClient startTime endTime script w)"
  unfolding GetLogs_def Let_def by (rule GetLogs_loop_minusOne)

text \<open>
  C10. When \<open>GetLogs\<close> returns an error, the count it returns is \<open>-1\<close>, in both
  versions, whatever was sent on the channel before.
\<close>

theorem C10_error_count:
  assumes "GetLogs_of v lib oktaClient startTime endTime script w =
             Returned ((count, Some e), script', w')"
  shows "count = - 1"
proof -
  have "minusOneOnError (GetLogs_of v lib oktaClient startTime endTime script w)"
    by (cases v) (simp_all add: GetLogs_minusOne GetLogs_part000_minusOne)
  with assms show ?thesis by simp
qed

theorem C10_error_count_witness:
  "\<exists>e w'. GetLogs_of Part001 stubLib stubClient ''t0'' ''t1'' [Inr page12, Inl (Error ''timeout'')] net0 =
            Returned ((- 1, Some e), [], w') \<and> channel w' = [''1'', ''2'']"
proof -
  have nr: "NewRequest stubLib m u = None" for m u
    by (simp add: stubLib_def)
  have second: "getLogsRequest stubLib stubClient params ''x'' [Inl (Error ''timeout'')] w =
      Returned (([], [], Some (Error (''Error conducting request: timeout'' @ [CHR 0x0A]))),
                Values_Set params ''after'' ''x'', [],
                w\<lparr>sent := sent w @ [\<lparr>Method = ToUpper stubLib ''GET'',
                     Url = String stubLib \<lparr>Scheme = ''https'', Host = Domain stubClient,
                             Path = ''/api/v1/logs'',
                             RawQuery = Encode stubLib (Values_Set params ''after'' ''x'')\<rparr>,
                     Header = [(''Accept'', ''application/json''),
                               (''Authorization'', ''SSWS '' @ Token stubClient),
                               (''Content-Type'', ''application/json'')],
                     ReqBody = None\<rparr>]\<rparr>)" for params w
    unfolding getLogsRequest_def conductRequest_def makeRetryableHttpCall_def Let_def
    by (simp add: loop_err [OF nr]) (simp add: stubLib_def)
  have first: "getLogsRequest stubLib stubClient params [] (Inr page12 # rest) w =
      Returned (([''1'', ''2''], ''x'', None), params, rest,
                w\<lparr>sent := sent w @ [logsRequest stubLib stubClient params]\<rparr>)" for params rest w
    using getLogsRequest_page [OF libOk_stubLib page12_facts(1), of stubClient params "[]" rest w]
    by (simp add: page12_facts page12_events)
  have "\<exists>c e w'. GetLogs stubLib stubClient ''t0'' ''t1'' [Inr page12, Inl (Error ''timeout'')] net0 =
            Returned ((c, Some e), [], w') \<and> channel w' = [''1'', ''2'']"
    unfolding GetLogs_def Let_def
    by (subst GetLogs_loop.simps, simp add: first, subst GetLogs_loop.simps,
        simp add: second net0_def)
  then obtain c e w' where
    run: "GetLogs_of Part001 stubLib stubClient ''t0'' ''t1'' [Inr page12, Inl (Error ''timeout'')] net0 =
            Returned ((c, Some e), [], w')"
    and ch: "channel w' = [''1'', ''2'']"
    by auto
  from C10_error_count [OF run] run ch show ?thesis
    by auto
qed

section \<open>The consumer and the poll loop\<close>

text \<open>
  What the consumer leaves as it is, and where the messages go: the temp file, the
  message in hand and the channel read, in this order, always the same.
\<close>

lemma consumerStep_Done:
  assumes "consumerStep e s = Done s'"
  shows "tmpFile s' @ held s' @ chnMessages s' = tmpFile s @ held s @ chnMessages s \<and>
     length (chnMessages s') \<le> length (chnMessages s) \<and> LastFile s' = LastFile s \<and>
     outputs s' = outputs s \<and> LastPollTimestamp s' = LastPollTimestamp s \<and>
     saved s' = saved s \<and> calls s' = calls s"
proof (cases "inHand s")
  case None
  with assms show ?thesis
    by (cases "chnMessages s") (auto simp: consumerStep_def held_def)
next
  case (Some message)
  show ?thesis
  proof (cases "WriteLog e message")
    case None
    with assms Some show ?thesis
      by (auto simp: consumerStep_def handleMessage_def held_def)
  next
    case (Some err)
    with assms \<open>inHand s = Some message\<close> show ?thesis
      by (cases err) (simp add: consumerStep_def handleMessage_def)
  qed
qed

lemma consumerStep_Fatal:
  assumes "consumerStep e s = Fatal m s'"
  shows "saved s' = saved s \<and> LastPollTimestamp s' = LastPollTimestamp s \<and> outputs s' = outputs s"
proof (cases "inHand s")
  case None
  with assms show ?thesis
    by (cases "chnMessages s") (auto simp: consumerStep_def)
next
  case (Some message)
  with assms show ?thesis
    by (cases "WriteLog e message")
       (auto simp: consumerStep_def handleMessage_def split: error.splits)
qed

lemma consumerStep_returns:
  "consumerStep e s \<noteq> Stuck \<and> consumerStep e s \<noteq> Crash p"
  by (auto simp: consumerStep_def handleMessage_def split: option.splits list.splits error.splits)

lemma consume_Done:
  "consume e n s = Done s' \<Longrightarrow>
     tmpFile s' @ held s' @ chnMessages s' = tmpFile s @ held s @ chnMessages s \<and>
     length (chnMessages s') \<le> length (chnMessages s) \<and> LastFile s' = LastFile s \<and>
     outputs s' = outputs s \<and> LastPollTimestamp s' = LastPollTimestamp s \<and>
     saved s' = saved s \<and> calls s' = calls s"
proof (induction n arbitrary: s)
  case 0
  then show ?case by simp
next
  case (Suc n)
  then obtain s1 where st: "consumerStep e s = Done s1" and rest: "consume e n s1 = Done s'"
    by (auto split: run.splits)
  from consumerStep_Done [OF st] Suc.IH [OF rest] show ?case
    by simp
qed

lemma consume_Fatal:
  "consume e n s = Fatal m s' \<Longrightarrow>
     saved s' = saved s \<and> LastPollTimestamp s' = LastPollTimestamp s \<and> outputs s' = outputs s"
proof (induction n arbitrary: s)
  case 0
  then show ?case by simp
next
  case (Suc n)
  then consider (now) "consumerStep e s = Fatal m s'"
    | (later) s1 where "consumerStep e s = Done s1" "consume e n s1 = Fatal m s'"
    by (auto split: run.splits)
  then show ?case
  proof cases
    case now
    then show ?thesis by (rule consumerStep_Fatal)
  next
    case later
    from consumerStep_Done [OF later(1)] Suc.IH [OF later(2)] show ?thesis by simp
  qed
qed

lemma drainWait_Done:
  "drainWait e ws s = Done s' \<Longrightarrow>
     chnMessages s' = [] \<and> tmpFile s' @ held s' = tmpFile s @ held s @ chnMessages s \<and>
     LastFile s' = LastFile s \<and> outputs s' = outputs s \<and>
     LastPollTimestamp s' = LastPollTimestamp s \<and> saved s' = saved s"
proof (induction ws arbitrary: s)
  case Nil
  then show ?case
    by (subst (asm) drainWait.simps) (simp split: if_splits)
next
  case (Cons n ws)
  show ?case
  proof (cases "chnMessages s = []")
    case True
    with Cons.prems show ?thesis
      by (subst (asm) drainWait.simps) simp
  next
    case False
    let ?s = "s\<lparr>calls := calls s @ [CallAfter 1]\<rparr>"
    from Cons.prems False obtain s1 where c: "consume e n ?s = Done s1"
      and d: "drainWait e ws s1 = Done s'"
      by (subst (asm) drainWait.simps) (auto split: run.splits)
    from consume_Done [OF c] Cons.IH [OF d] show ?thesis
      by (simp add: held_def)
  qed
qed

lemma drainWait_Fatal:
  "drainWait e ws s = Fatal m s' \<Longrightarrow>
     saved s' = saved s \<and> LastPollTimestamp s' = LastPollTimestamp s \<and> outputs s' = outputs s"
proof (induction ws arbitrary: s)
  case Nil
  then show ?case
    by (subst (asm) drainWait.simps) (simp split: if_splits)
next
  case (Cons n ws)
  show ?case
  proof (cases "chnMessages s = []")
    case True
    with Cons.prems show ?thesis
      by (subst (asm) drainWait.simps) simp
  next
    case False
    let ?s = "s\<lparr>calls := calls s @ [CallAfter 1]\<rparr>"
    from Cons.prems False
    consider (now) "consume e n ?s = Fatal m s'"
      | (later) s1 where "consume e n ?s = Done s1" "drainWait e ws s1 = Fatal m s'"
      by (subst (asm) drainWait.simps) (auto split: run.splits)
    then show ?thesis
    proof cases
      case now
      from consume_Fatal [OF this] show ?thesis by simp
    next
      case later
      from consume_Done [OF later(1)] Cons.IH [OF later(2)] show ?thesis by simp
    qed
  qed
qed

lemma getEvents_Done:
  assumes "getEvents getLogs lib oktaClient e timestamp s = Done (count, t, s1)"
  shows "\<exists>script' w'.
     getLogs lib oktaClient timestamp (Format e (now e)) (answers e)
       \<lparr>sent = [], slept = [], channel = []\<rparr> = Returned ((count, None), script', w') \<and>
     t = now e \<and>
     tmpFile s1 @ held s1 @ chnMessages s1 = tmpFile s @ held s @ chnMessages s @ channel w' \<and>
     LastFile s1 = LastFile s \<and> outputs s1 = outputs s \<and>
     LastPollTimestamp s1 = LastPollTimestamp s \<and> saved s1 = saved s \<and> calls s1 = calls s"
proof (cases "getLogs lib oktaClient timestamp (Format e (now e)) (answers e)
                \<lparr>sent = [], slept = [], channel = []\<rparr>")
  case (Returned x)
  obtain c err script' w' where x: "x = ((c, err), script', w')"
    by (cases x) auto
  let ?s = "s\<lparr>chnMessages := chnMessages s @ channel w'\<rparr>"
  from assms Returned x obtain s' where c: "consume e (consumed e) ?s = Done s'"
    and rest: "(case err of Some (Error m) \<Rightarrow> Fatal (''Unable to retrieve okta logs: '' @ m) s'
                | None \<Rightarrow> Done (c, now e, s')) = Done (count, t, s1)"
    by (auto simp: getEvents_def split: run.splits if_splits)
  from rest have "err = None" "c = count" "t = now e" "s' = s1"
    by (auto split: option.splits error.splits)
  with consume_Done [OF c] Returned x show ?thesis
    by (simp add: held_def)
next
  case (Panicked p)
  with assms show ?thesis by (simp add: getEvents_def)
next
  case Waiting
  with assms show ?thesis by (simp add: getEvents_def)
qed

lemma getEvents_Fatal:
  assumes "getEvents getLogs lib oktaClient e timestamp s = Fatal m s'"
  shows "saved s' = saved s \<and> LastPollTimestamp s' = LastPollTimestamp s \<and> outputs s' = outputs s"
proof (cases "getLogs lib oktaClient timestamp (Format e (now e)) (answers e)
                \<lparr>sent = [], slept = [], channel = []\<rparr>")
  case (Returned x)
  obtain c err script' w' where x: "x = ((c, err), script', w')"
    by (cases x) auto
  let ?s = "s\<lparr>chnMessages := chnMessages s @ channel w'\<rparr>"
  show ?thesis
  proof (cases "consume e (consumed e) ?s")
    case (Done s2)
    with assms Returned x have "s' = s2"
      by (auto simp: getEvents_def split: if_splits option.splits error.splits)
    with consume_Done [OF Done] show ?thesis by simp
  next
    case (Fatal m2 s2)
    with assms Returned x have "s' = s2"
      by (simp add: getEvents_def)
    with consume_Fatal [OF Fatal] show ?thesis by simp
  next
    case (Crash p)
    with assms Returned x show ?thesis by (simp add: getEvents_def)
  next
    case Stuck
    with assms Returned x show ?thesis by (simp add: getEvents_def)
  qed
next
  case (Panicked p)
  with assms show ?thesis by (simp add: getEvents_def)
next
  case Waiting
  with assms show ?thesis by (simp add: getEvents_def)
qed

lemma pollEvery_copy_write_fails:
  assumes "drainWait e (waits e) s1 = Done s2" and "consume e (beforeRotate e) s2 = Done s2'"
    and "WriteToOutputs_err e = Some (Error err)"
  shows "pollEvery_copy e t s1 = Fatal (''Unable to write to output: '' @ err) (Rotate s2')"
  using assms by (simp add: pollEvery_copy_def WriteToOutputs_def)

lemma pollEvery_copy_Done:
  assumes "pollEvery_copy e t s1 = Done s4"
  shows "WriteToOutputs_err e = None \<and> Remove_err e = None \<and> chnMessages s4 = [] \<and>
     (\<exists>batch. outputs s4 = outputs s1 @ [(batch, Format e t)] \<and>
        batch @ held s4 = tmpFile s1 @ held s1 @ chnMessages s1) \<and>
     LastFile s4 = None \<and> tmpFile s4 = [] \<and>
     LastPollTimestamp s4 = LastPollTimestamp s1 \<and> saved s4 = saved s1"
proof (cases "drainWait e (waits e) s1")
  case (Done s2)
  note d = drainWait_Done [OF Done]
  show ?thesis
  proof (cases "consume e (beforeRotate e) s2")
    case c: (Done s2')
    note k = consume_Done [OF c]
    show ?thesis
    proof (cases "WriteToOutputs_err e")
      case None
      then have w: "WriteToOutputs e (Format e t) (Rotate s2') =
          Inr (Rotate s2'\<lparr>calls := calls (Rotate s2') @ [CallWriteToOutputs (Format e t)],
                          outputs := outputs s2' @ [(tmpFile s2', Format e t)]\<rparr>)"
        by (simp add: WriteToOutputs_def Rotate_def)
      show ?thesis
      proof (cases "Remove_err e")
        case rm: None
        from assms Done c w rm have s4: "s4 =
            Rotate s2'\<lparr>calls := calls (Rotate s2') @ [CallWriteToOutputs (Format e t)],
                        outputs := outputs s2' @ [(tmpFile s2', Format e t)],
                        LastFile := None,
                        calls := calls (Rotate s2') @ [CallWriteToOutputs (Format e t)] @ [CallRemove]\<rparr>"
          by (auto simp: pollEvery_copy_def Remove_def)
        have chn: "chnMessages s2' = []"
          using d k by simp
        have "tmpFile s2' @ held s4 = tmpFile s1 @ held s1 @ chnMessages s1"
          using d k chn by (simp add: s4 Rotate_def held_def)
        with d k chn None rm show ?thesis
          by (simp add: s4 Rotate_def)
      next
        case (Some err)
        with assms Done c w show ?thesis
          by (cases err) (simp add: pollEvery_copy_def Remove_def)
      qed
    next
      case (Some err)
      with assms Done c show ?thesis
        by (cases err) (simp add: pollEvery_copy_def WriteToOutputs_def)
    qed
  next
    case (Fatal m s')
    with assms Done show ?thesis by (simp add: pollEvery_copy_def)
  next
    case (Crash p)
    with assms Done show ?thesis by (simp add: pollEvery_copy_def)
  next
    case Stuck
    with assms Done show ?thesis by (simp add: pollEvery_copy_def)
  qed
next
  case (Fatal m s')
  with assms show ?thesis by (simp add: pollEvery_copy_def)
next
  case (Crash p)
  with assms show ?thesis by (simp add: pollEvery_copy_def)
next
  case Stuck
  with assms show ?thesis by (simp add: pollEvery_copy_def)
qed

lemma pollEvery_copy_Fatal:
  assumes "pollEvery_copy e t s1 = Fatal m s'"
  shows "saved s' = saved s1 \<and> LastPollTimestamp s' = LastPollTimestamp s1"
proof (cases "drainWait e (waits e) s1")
  case (Done s2)
  note d = drainWait_Done [OF Done]
  show ?thesis
  proof (cases "consume e (beforeRotate e) s2")
    case c: (Done s2')
    note k = consume_Done [OF c]
    show ?thesis
    proof (cases "WriteToOutputs_err e")
      case None
      then have w: "WriteToOutputs e (Format e t) (Rotate s2') =
          Inr (Rotate s2'\<lparr>calls := calls (Rotate s2') @ [CallWriteToOutputs (Format e t)],
                          outputs := outputs s2' @ [(tmpFile s2', Format e t)]\<rparr>)"
        by (simp add: WriteToOutputs_def Rotate_def)
      show ?thesis
      proof (cases "Remove_err e")
        case rm: None
        from assms Done c w rm show ?thesis
          by (simp add: pollEvery_copy_def Remove_def)
      next
        case (Some err)
        with assms Done c w d k show ?thesis
          by (cases err) (auto simp: pollEvery_copy_def Remove_def Rotate_def)
      qed
    next
      case (Some err0)
      then obtain err where "WriteToOutputs_err e = Some (Error err)"
        by (cases err0) simp
      from pollEvery_copy_write_fails [OF Done c this, of t] assms d k show ?thesis
        by (auto simp: Rotate_def)
    qed
  next
    case (Fatal m2 s2')
    with assms Done have "s' = s2'" by (simp add: pollEvery_copy_def)
    with consume_Fatal [OF Fatal] d show ?thesis by simp
  next
    case (Crash p)
    with assms Done show ?thesis by (simp add: pollEvery_copy_def)
  next
    case Stuck
    with assms Done show ?thesis by (simp add: pollEvery_copy_def)
  qed
next
  case (Fatal m2 s2)
  with assms have "s' = s2" by (simp add: pollEvery_copy_def)
  with drainWait_Fatal [OF Fatal] show ?thesis by simp
next
  case (Crash p)
  with assms show ?thesis by (simp add: pollEvery_copy_def)
next
  case Stuck
  with assms show ?thesis by (simp add: pollEvery_copy_def)
qed

lemma pollEvery_round_Fatal:
  assumes "pollEvery_round getLogs lib oktaClient seconds e s = Fatal m s'"
  shows "saved s' = saved s \<and> LastPollTimestamp s' = LastPollTimestamp s"
proof (cases "getEvents getLogs lib oktaClient e (LastPollTimestamp s) s")
  case (Done x)
  obtain eventCount lastPollTime s1 where x: "x = (eventCount, lastPollTime, s1)"
    by (cases x) auto
  note g = getEvents_Done [OF Done [unfolded x]]
  show ?thesis
  proof (cases "eventCount > 0")
    case True
    with assms Done x have "pollEvery_copy e lastPollTime s1 = Fatal m s'"
      by (auto simp: pollEvery_round_def Let_def split: run.splits)
    from pollEvery_copy_Fatal [OF this] g show ?thesis by auto
  next
    case False
    with assms Done x show ?thesis
      by (simp add: pollEvery_round_def Let_def)
  qed
next
  case (Fatal m2 s2)
  with assms have "s' = s2" by (simp add: pollEvery_round_def)
  with getEvents_Fatal [OF Fatal] show ?thesis by simp
next
  case (Crash p)
  with assms show ?thesis by (simp add: pollEvery_round_def)
next
  case Stuck
  with assms show ?thesis by (simp add: pollEvery_round_def)
qed

lemma pollEvery_round_Done:
  assumes "pollEvery_round getLogs lib oktaClient seconds e s = Done s'"
  shows "\<exists>count script' w'.
     getLogs lib oktaClient (LastPollTimestamp s) (Format e (now e)) (answers e)
       \<lparr>sent = [], slept = [], channel = []\<rparr> = Returned ((count, None), script', w') \<and>
     LastPollTimestamp s' = Format e (now e) \<and>
     saved s' = (if Save_ok e then Some (Format e (now e)) else saved s) \<and>
     (if 0 < count then
        WriteToOutputs_err e = None \<and> Remove_err e = None \<and> chnMessages s' = [] \<and>
        (\<exists>batch. outputs s' = outputs s @ [(batch, Format e (now e))] \<and>
           batch @ held s' = tmpFile s @ held s @ chnMessages s @ channel w')
      else
        outputs s' = outputs s \<and> LastFile s' = LastFile s \<and>
        calls s' = calls s @ [CallSave (Format e (now e)), CallAfter seconds])"
proof (cases "getEvents getLogs lib oktaClient e (LastPollTimestamp s) s")
  case (Done x)
  obtain eventCount lastPollTime s1 where x: "x = (eventCount, lastPollTime, s1)"
    by (cases x) auto
  from getEvents_Done [OF Done [unfolded x]] obtain script' w' where
    fetch: "getLogs lib oktaClient (LastPollTimestamp s) (Format e (now e)) (answers e)
       \<lparr>sent = [], slept = [], channel = []\<rparr> = Returned ((eventCount, None), script', w')"
    and t: "lastPollTime = now e"
    and g: "tmpFile s1 @ held s1 @ chnMessages s1 = tmpFile s @ held s @ chnMessages s @ channel w'"
      "LastFile s1 = LastFile s" "outputs s1 = outputs s"
      "LastPollTimestamp s1 = LastPollTimestamp s" "saved s1 = saved s" "calls s1 = calls s"
    by blast
  show ?thesis
  proof (cases "eventCount > 0")
    case True
    with assms Done x obtain s5 where c: "pollEvery_copy e lastPollTime s1 = Done s5"
      and s': "s' = (Save e (s5\<lparr>LastPollTimestamp := Format e lastPollTime\<rparr>))
                 \<lparr>calls := calls (Save e (s5\<lparr>LastPollTimestamp := Format e lastPollTime\<rparr>))
                    @ [CallAfter seconds]\<rparr>"
      by (auto simp: pollEvery_round_def Let_def split: run.splits)
    from pollEvery_copy_Done [OF c] obtain batch where
      b: "outputs s5 = outputs s1 @ [(batch, Format e lastPollTime)]"
        "batch @ held s5 = tmpFile s1 @ held s1 @ chnMessages s1"
      and r: "WriteToOutputs_err e = None" "Remove_err e = None" "chnMessages s5 = []"
        "LastPollTimestamp s5 = LastPollTimestamp s1" "saved s5 = saved s1"
      by blast
    have h: "held s' = held s5"
      by (simp add: s' Save_def held_def)
    from b r g t True fetch h show ?thesis
      by (intro exI [of _ eventCount] exI [of _ script'] exI [of _ w'])
         (simp add: s' Save_def)
  next
    case False
    with assms Done x have
      s': "s' = (Save e (s1\<lparr>LastPollTimestamp := Format e lastPollTime\<rparr>))
                 \<lparr>calls := calls (Save e (s1\<lparr>LastPollTimestamp := Format e lastPollTime\<rparr>))
                    @ [CallAfter seconds]\<rparr>"
      by (simp add: pollEvery_round_def Let_def)
    from g t s' False fetch show ?thesis
      by (intro exI [of _ eventCount] exI [of _ script'] exI [of _ w']) (simp add: Save_def)
  qed
next
  case (Fatal m2 s2)
  with assms show ?thesis by (simp add: pollEvery_round_def)
next
  case (Crash p)
  with assms show ?thesis by (simp add: pollEvery_round_def)
next
  case Stuck
  with assms show ?thesis by (simp add: pollEvery_round_def)
qed

lemma pollEvery_rounds_snoc:
  "pollEvery_rounds getLogs lib oktaClient seconds (es @ [e]) s0 =
     (case pollEvery_rounds getLogs lib oktaClient seconds es s0 of
        Done s \<Rightarrow> pollEvery_round getLogs lib oktaClient seconds e s
      | other \<Rightarrow> other)"
  by (induction es arbitrary: s0) (auto split: run.splits)

lemma pollEvery_rounds_checkpoint:
  assumes "pollEvery_rounds getLogs lib oktaClient seconds es s0 = Done s" and "es \<noteq> []"
  shows "LastPollTimestamp s = Format (last es) (now (last es)) \<and>
     (Save_ok (last es) \<longrightarrow> saved s = Some (Format (last es) (now (last es))))"
proof -
  from assms(2) obtain es' e where es: "es = es' @ [e]"
    by (cases es rule: rev_cases) auto
  from assms(1) obtain s1 where "pollEvery_round getLogs lib oktaClient seconds e s1 = Done s"
    unfolding es pollEvery_rounds_snoc by (auto split: run.splits)
  from pollEvery_round_Done [OF this] show ?thesis
    by (auto simp: es)
qed

section \<open>Order of the records\<close>

lemma convertLogsToString_range_order:
  "convertLogsToString_range lib data items = (events, None) \<Longrightarrow>
   \<exists>rest. events = data @ rest \<and> map (Marshal lib) items = map Inr rest"
proof (induction items arbitrary: data)
  case Nil
  then show ?case by simp
next
  case (Cons val items)
  show ?case
  proof (cases "Marshal lib val")
    case (Inl err)
    with Cons.prems show ?thesis by simp
  next
    case (Inr plain)
    with Cons.prems have "convertLogsToString_range lib (data @ [plain]) items = (events, None)"
      by simp
    from Cons.IH [OF this] obtain rest where
      "events = (data @ [plain]) @ rest" "map (Marshal lib) items = map Inr rest"
      by blast
    with Inr show ?thesis
      by (intro exI [of _ "plain # rest"]) simp
  qed
qed

lemma pageLines_order:
  assumes "goodPage lib p"
  shows "\<exists>items events. Unmarshal lib (fst (Body p)) = Inr items \<and>
     map (Marshal lib) items = map Inr events \<and> pageLines lib p = map (Ugly lib) events"
proof -
  from assms obtain items events where "Unmarshal lib (fst (Body p)) = Inr items"
    and c: "convertLogsToString lib items = (events, None)"
    and "pageLines lib p = map (Ugly lib) events"
    by (rule goodPage_cases)
  moreover from c have "map (Marshal lib) items = map Inr events"
    using convertLogsToString_range_order [of lib "[]" items events]
    by (simp add: convertLogsToString_def)
  ultimately show ?thesis by blast
qed

text \<open>
  Every step of the producer and of the consumer keeps the order: the temp file, the
  message in hand, the channel and the messages still to send read, in this order,
  always the same.
\<close>

lemma pipe_keeps_order:
  assumes "pipe e cap (ms, s) (ms', s')"
  shows "tmpFile s' @ held s' @ chnMessages s' @ ms' = tmpFile s @ held s @ chnMessages s @ ms"
  using assms
proof (cases rule: pipe.cases)
  case send
  then show ?thesis by (simp add: held_def)
next
  case receive
  then show ?thesis by (simp add: held_def)
next
  case handle
  then show ?thesis
    by (auto simp: handleMessage_def held_def split: option.splits error.splits)
qed

lemma pipe_run_keeps_order:
  "(pipe e cap)\<^sup>*\<^sup>* (ms, s) (ms', s') \<Longrightarrow>
   tmpFile s' @ held s' @ chnMessages s' @ ms' = tmpFile s @ held s @ chnMessages s @ ms"
proof (induction "(ms', s')" arbitrary: ms' s' rule: rtranclp_induct)
  case base
  show ?case by simp
next
  case (step y)
  obtain ms1 s1 where y: "y = (ms1, s1)"
    by (cases y) auto
  from step.hyps(3) [OF y] pipe_keeps_order [OF step.hyps(2) [unfolded y]]
  show ?case by simp
qed

lemma pipe_bounded:
  "(pipe e cap)\<^sup>*\<^sup>* (ms, s) (ms', s') \<Longrightarrow> length (chnMessages s) \<le> cap \<Longrightarrow>
   length (chnMessages s') \<le> cap"
proof (induction "(ms', s')" arbitrary: ms' s' rule: rtranclp_induct)
  case base
  then show ?case by simp
next
  case (step y)
  obtain ms1 s1 where y: "y = (ms1, s1)"
    by (cases y) auto
  from step.hyps(3) [OF y step.prems] have b: "length (chnMessages s1) \<le> cap" .
  from step.hyps(2) [unfolded y] show ?case
  proof (cases rule: pipe.cases)
    case send
    then show ?thesis by simp
  next
    case receive
    with b show ?thesis by simp
  next
    case handle
    with b show ?thesis
      by (auto simp: handleMessage_def split: option.splits error.splits)
  qed
qed

text \<open>The steps of \<open>consume\<close> are steps of the consumer in \<open>pipe\<close>.\<close>

lemma consumerStep_pipe:
  assumes "consumerStep e s = Done s'"
  shows "(pipe e cap)\<^sup>*\<^sup>* (ms, s) (ms, s')"
proof (cases "inHand s")
  case None
  show ?thesis
  proof (cases "chnMessages s")
    case Nil
    with assms None show ?thesis by (simp add: consumerStep_def)
  next
    case (Cons m rest)
    with assms None have "s' = s\<lparr>chnMessages := rest, inHand := Some m\<rparr>"
      by (simp add: consumerStep_def)
    with pipe.receive [OF None Cons, of e cap ms] show ?thesis by auto
  qed
next
  case (Some m)
  with assms have "handleMessage e m (s\<lparr>inHand := None\<rparr>) = Done s'"
    by (simp add: consumerStep_def)
  from pipe.handle [OF Some this, of cap ms] show ?thesis by auto
qed

lemma consume_pipe:
  "consume e n s = Done s' \<Longrightarrow> (pipe e cap)\<^sup>*\<^sup>* (ms, s) (ms, s')"
proof (induction n arbitrary: s)
  case 0
  then show ?case by simp
next
  case (Suc n)
  then obtain s1 where st: "consumerStep e s = Done s1" and rest: "consume e n s1 = Done s'"
    by (auto split: run.splits)
  from consumerStep_pipe [OF st, of cap ms] Suc.IH [OF rest] show ?case
    by (rule rtranclp_trans)
qed

text \<open>
  C9. For successful pages, the strings \<open>GetLogs\<close> sends on the channel are the lines
  of the pages it fetched, page after page, and the lines of a page are its decoded
  array elements, re-serialised one by one in the order of the array. However the sends
  and the steps of the consumer (the receive and \<open>handleMessage\<close>) interleave on the
  bounded channel, the temp file, the message in hand, the channel and the sends still
  to come always read, in this order, as before: the consumer writes the strings in
  the order they were sent. The same holds of \<open>getEvents\<close>, and the steps of
  \<open>consume\<close> are such steps.
\<close>

theorem C9_order_preserved:
  assumes ok: "libOk lib"
    and ne: "pages \<noteq> []"
    and good: "\<forall>p\<in>set pages. goodPage lib p"
    and fin: "cursorOf lib (last pages) = []"
  shows "\<exists>n res script' w'.
     GetLogs_of v lib oktaClient startTime endTime (map Inr pages) w = Returned (res, script', w') \<and>
     length (sent w') = length (sent w) + n \<and>
     channel w' = channel w @ concat (map (pageLines lib) (take n pages)) \<and>
     (\<forall>p\<in>set pages. \<exists>items events. Unmarshal lib (fst (Body p)) = Inr items \<and>
        map (Marshal lib) items = map Inr events \<and> pageLines lib p = map (Ugly lib) events) \<and>
     (\<forall>e cap s ms' s'.
        (pipe e cap)\<^sup>*\<^sup>* (concat (map (pageLines lib) (take n pages)), s) (ms', s') \<longrightarrow>
        tmpFile s' @ held s' @ chnMessages s' @ ms' =
          tmpFile s @ held s @ chnMessages s @ concat (map (pageLines lib) (take n pages)) \<and>
        (length (chnMessages s) \<le> cap \<longrightarrow> length (chnMessages s') \<le> cap)) \<and>
     (\<forall>e ts s count t s1.
        getEvents (GetLogs_of v) lib oktaClient e ts s = Done (count, t, s1) \<longrightarrow>
        (\<exists>script1 w1.
           GetLogs_of v lib oktaClient ts (Format e (now e)) (answers e)
             \<lparr>sent = [], slept = [], channel = []\<rparr> = Returned ((count, None), script1, w1) \<and>
           tmpFile s1 @ held s1 @ chnMessages s1 =
             tmpFile s @ held s @ chnMessages s @ channel w1)) \<and>
     (\<forall>e cap k s s' ms. consume e k s = Done s' \<longrightarrow> (pipe e cap)\<^sup>*\<^sup>* (ms, s) (ms, s'))"
proof -
  from ne obtain p ps where pages: "pages = p # ps"
    by (cases pages) auto
  have "cursorOf lib p = [] \<or> (\<exists>q\<in>set ps. cursorOf lib q = [])"
    using fin pages by (cases "ps = []") auto
  then obtain fs where fs: "pagesAfter lib (cursorOf lib p) ps = Some fs"
    using pagesAfter_exists by blast
  have tk: "fs = take (length fs) ps"
    using fs by (rule pagesAfter_take)
  have tk': "take (Suc (length fs)) (p # ps) = p # fs"
    using tk by simp
  have good': "\<forall>q\<in>set (p # ps). goodPage lib q"
    using good pages by simp
  have gp: "goodPage lib p"
    using good pages by simp
  have order: "\<forall>p\<in>set pages. \<exists>items events. Unmarshal lib (fst (Body p)) = Inr items \<and>
        map (Marshal lib) items = map Inr events \<and> pageLines lib p = map (Ugly lib) events"
    using good pageLines_order by blast
  have run: "\<forall>e cap s ms' s'.
        (pipe e cap)\<^sup>*\<^sup>* (sends, s) (ms', s') \<longrightarrow>
        tmpFile s' @ held s' @ chnMessages s' @ ms' = tmpFile s @ held s @ chnMessages s @ sends \<and>
        (length (chnMessages s) \<le> cap \<longrightarrow> length (chnMessages s') \<le> cap)" for sends
    using pipe_run_keeps_order pipe_bounded by blast
  have events: "\<forall>e ts s count t s1.
        getEvents (GetLogs_of v) lib oktaClient e ts s = Done (count, t, s1) \<longrightarrow>
        (\<exists>script1 w1.
           GetLogs_of v lib oktaClient ts (Format e (now e)) (answers e)
             \<lparr>sent = [], slept = [], channel = []\<rparr> = Returned ((count, None), script1, w1) \<and>
           tmpFile s1 @ held s1 @ chnMessages s1 =
             tmpFile s @ held s @ chnMessages s @ channel w1)"
  proof (intro allI impI)
    fix e ts s count t s1
    assume "getEvents (GetLogs_of v) lib oktaClient e ts s = Done (count, t, s1)"
    from getEvents_Done [OF this] show "\<exists>script1 w1.
           GetLogs_of v lib oktaClient ts (Format e (now e)) (answers e)
             \<lparr>sent = [], slept = [], channel = []\<rparr> = Returned ((count, None), script1, w1) \<and>
           tmpFile s1 @ held s1 @ chnMessages s1 =
             tmpFile s @ held s @ chnMessages s @ channel w1"
      by blast
  qed
  have steps: "\<forall>e cap k s s' ms. consume e k s = Done s' \<longrightarrow> (pipe e cap)\<^sup>*\<^sup>* (ms, s) (ms, s')"
    using consume_pipe by blast
  have fetch: "\<exists>n res script' w'.
     GetLogs_of v lib oktaClient startTime endTime (map Inr pages) w = Returned (res, script', w') \<and>
     length (sent w') = length (sent w) + n \<and>
     channel w' = channel w @ concat (map (pageLines lib) (take n pages))"
  proof (cases "v = Part000 \<and> pageCount lib p = 0")
    case True
    from gp obtain events where "pageCount lib p = int (length events)"
      "pageLines lib p = map (Ugly lib) events"
      by (rule goodPage_cases)
    with True have nolines: "pageLines lib p = []" by simp
    have "GetLogs_part000 lib oktaClient startTime endTime (map Inr pages) w =
        Returned ((0, None), map Inr ps,
          w\<lparr>sent := sent w @ [logsRequest lib oktaClient (firstParams startTime endTime)]\<rparr>)"
      using GetLogs_part000_first [OF ok gp, of oktaClient startTime endTime "map Inr ps" w] True
      by (simp add: pages)
    then show ?thesis
      using True pages nolines by (intro exI [of _ 1]) simp
  next
    case False
    show ?thesis
    proof (cases v)
      case Part001
      show ?thesis
        using GetLogs_pages [OF ok good' fs, of oktaClient startTime endTime "[]" w]
        unfolding Part001 GetLogs_of.simps pages tk' [symmetric]
        by (intro exI [of _ "Suc (length fs)"]) (simp del: take_Suc_Cons add: tk')
    next
      case Part000
      with False have some: "pageCount lib p \<noteq> 0" by simp
      show ?thesis
        using GetLogs_part000_pages [OF ok good' fs some, of oktaClient startTime endTime "[]" w]
        unfolding Part000 GetLogs_of.simps pages tk' [symmetric]
        by (intro exI [of _ "Suc (length fs)"]) (simp del: take_Suc_Cons add: tk')
    qed
  qed
  then obtain n res script' w' where
    "GetLogs_of v lib oktaClient startTime endTime (map Inr pages) w = Returned (res, script', w')"
    "length (sent w') = length (sent w) + n"
    "channel w' = channel w @ concat (map (pageLines lib) (take n pages))"
    by blast
  with order run [of "concat (map (pageLines lib) (take n pages))"] events steps show ?thesis
    by (intro exI [of _ n] exI [of _ res] exI [of _ script'] exI [of _ w'] conjI) assumption+
qed

theorem C9_order_preserved_witness:
  "(\<exists>res script' w'. GetLogs_of Part001 stubLib stubClient ''t0'' ''t1'' [Inr page12, Inr page3] net0 =
       Returned (res, script', w') \<and> channel w' = [''1'', ''2'', ''3'']) \<and>
   consume env123 6 (sys0\<lparr>chnMessages := [''1'', ''2'', ''3'']\<rparr>) =
     Done (sys0\<lparr>tmpFile := [''1'', ''2'', ''3'']\<rparr>) \<and>
   (pipe env123 maxMessages)\<^sup>*\<^sup>* ([], sys0\<lparr>chnMessages := [''1'', ''2'', ''3'']\<rparr>)
     ([], sys0\<lparr>tmpFile := [''1'', ''2'', ''3'']\<rparr>)"
proof -
  have good: "\<forall>p\<in>set [page12, page3]. goodPage stubLib p"
    by (simp add: page12_facts page3_facts)
  have c: "consume env123 6 (sys0\<lparr>chnMessages := [''1'', ''2'', ''3'']\<rparr>) =
      Done (sys0\<lparr>tmpFile := [''1'', ''2'', ''3'']\<rparr>)"
    by (simp add: env123_def sys0_def consumerStep_def handleMessage_def eval_nat_numeral)
  from C9_order_preserved [OF libOk_stubLib _ good, of Part001 stubClient "''t0''" "''t1''" net0]
  obtain n res script' w' where
    run: "GetLogs_of Part001 stubLib stubClient ''t0'' ''t1'' (map Inr [page12, page3]) net0 =
       Returned (res, script', w')"
    and n: "length (sent w') = length (sent net0) + n"
    and ch: "channel w' = channel net0 @ concat (map (pageLines stubLib) (take n [page12, page3]))"
    and steps: "\<forall>e cap k s s' ms. consume e k s = Done s' \<longrightarrow>
        (pipe e cap)\<^sup>*\<^sup>* (ms :: string list, s) (ms, s')"
    by (auto simp: page3_facts)
  have "length (sent w') = 2"
    using run GetLogs_follow_up_stub by auto
  with n have "n = 2" by (simp add: net0_def)
  with ch have ch': "channel w' = [''1'', ''2'', ''3'']"
    by (simp add: net0_def page12_facts page3_facts)
  from steps c have "(pipe env123 maxMessages)\<^sup>*\<^sup>* ([], sys0\<lparr>chnMessages := [''1'', ''2'', ''3'']\<rparr>)
     ([], sys0\<lparr>tmpFile := [''1'', ''2'', ''3'']\<rparr>)"
    by blast
  with run ch' c show ?thesis by auto
qed

lemma pageNothing_facts:
  "goodPage stubLib pageNothing" "cursorOf stubLib pageNothing = []" "pageCount stubLib pageNothing = 0"
  "pageLines stubLib pageNothing = []"
proof -
  have ev: "pageEvents stubLib pageNothing = Some []"
    by (simp add: pageEvents_def pageNothing_def stubLib_def convertLogsToString_def)
  have cu: "getResultsOffset stubLib pageNothing = Inr []"
    by (simp add: getResultsOffset_def pageNothing_def)
  show "goodPage stubLib pageNothing" "cursorOf stubLib pageNothing = []"
    "pageCount stubLib pageNothing = 0" "pageLines stubLib pageNothing = []"
    unfolding goodPage_def cursorOf_def pageCount_def pageLines_def pageCursor_def
    by (simp_all add: ev cu)
qed

lemma GetLogs_stub_123:
  "GetLogs stubLib stubClient ts te [Inr page12, Inr page3] \<lparr>sent = [], slept = [], channel = []\<rparr> =
     Returned ((3, None), [],
       \<lparr>sent = [logsRequest stubLib stubClient (firstParams ts te),
                logsRequest stubLib stubClient (Values_Set (firstParams ts te) ''after'' ''x'')],
         slept = [], channel = [''1'', ''2'', ''3'']\<rparr>)"
proof -
  have good: "\<forall>q\<in>set [page12, page3]. goodPage stubLib q"
    by (simp add: page12_facts page3_facts)
  have fs: "pagesAfter stubLib (cursorOf stubLib page12) [page3] = Some [page3]"
    by (simp add: page12_facts page3_facts)
  show ?thesis
    using GetLogs_pages [OF libOk_stubLib good fs, of stubClient ts te "[]"
        "\<lparr>sent = [], slept = [], channel = []\<rparr>"]
    by (simp add: page12_facts page3_facts)
qed

lemma GetLogs_stub_empty:
  "GetLogs stubLib stubClient ts te [Inr pageNothing] \<lparr>sent = [], slept = [], channel = []\<rparr> =
     Returned ((0, None), [],
       \<lparr>sent = [logsRequest stubLib stubClient (firstParams ts te)], slept = [], channel = []\<rparr>)"
proof -
  have good: "\<forall>q\<in>set [pageNothing]. goodPage stubLib q"
    by (simp add: pageNothing_facts)
  have fs: "pagesAfter stubLib (cursorOf stubLib pageNothing) [] = Some []"
    by (simp add: pageNothing_facts)
  show ?thesis
    using GetLogs_pages [OF libOk_stubLib good fs, of stubClient ts te "[]"
        "\<lparr>sent = [], slept = [], channel = []\<rparr>"]
    by (simp add: pageNothing_facts)
qed

text \<open>
  What holds of the checkpoint. Let the earlier rounds have ended normally in the state
  \<open>s\<close>. Then \<open>s\<close> holds the timestamp of the last of them; a round that ends in
  \<open>log.Fatalf\<close> leaves the saved and the current timestamp as they are in \<open>s\<close>; and a
  round whose write to the outputs fails ends so.
\<close>

lemma write_failure_keeps_checkpoint:
  assumes prev: "pollEvery_rounds getLogs lib oktaClient seconds es s0 = Done s"
  shows "(es \<noteq> [] \<longrightarrow> LastPollTimestamp s = Format (last es) (now (last es)) \<and>
            (Save_ok (last es) \<longrightarrow> saved s = Some (Format (last es) (now (last es))))) \<and>
     (\<forall>m s'. pollEvery_rounds getLogs lib oktaClient seconds (es @ [e]) s0 = Fatal m s' \<longrightarrow>
        saved s' = saved s \<and> LastPollTimestamp s' = LastPollTimestamp s) \<and>
     (\<forall>count t s1 s2 s3 err.
        getEvents getLogs lib oktaClient e (LastPollTimestamp s) s = Done (count, t, s1) \<and>
        0 < count \<and> drainWait e (waits e) s1 = Done s2 \<and>
        consume e (beforeRotate e) s2 = Done s3 \<and>
        WriteToOutputs_err e = Some (Error err) \<longrightarrow>
        pollEvery_rounds getLogs lib oktaClient seconds (es @ [e]) s0 =
          Fatal (''Unable to write to output: '' @ err) (Rotate s3) \<and>
        saved (Rotate s3) = saved s)"
proof -
  have round: "pollEvery_rounds getLogs lib oktaClient seconds (es @ [e]) s0 =
      pollEvery_round getLogs lib oktaClient seconds e s"
    by (simp add: pollEvery_rounds_snoc prev)
  have a: "es \<noteq> [] \<longrightarrow> LastPollTimestamp s = Format (last es) (now (last es)) \<and>
            (Save_ok (last es) \<longrightarrow> saved s = Some (Format (last es) (now (last es))))"
    using pollEvery_rounds_checkpoint [OF prev] by blast
  have b: "\<forall>m s'. pollEvery_rounds getLogs lib oktaClient seconds (es @ [e]) s0 = Fatal m s' \<longrightarrow>
        saved s' = saved s \<and> LastPollTimestamp s' = LastPollTimestamp s"
    unfolding round using pollEvery_round_Fatal by blast
  have c: "pollEvery_rounds getLogs lib oktaClient seconds (es @ [e]) s0 =
          Fatal (''Unable to write to output: '' @ err) (Rotate s3) \<and>
        saved (Rotate s3) = saved s"
    if g: "getEvents getLogs lib oktaClient e (LastPollTimestamp s) s = Done (count, t, s1)"
      and pos: "0 < count" and d: "drainWait e (waits e) s1 = Done s2"
      and k: "consume e (beforeRotate e) s2 = Done s3"
      and wr: "WriteToOutputs_err e = Some (Error err)" for count t s1 s2 s3 err
  proof -
    have "pollEvery_round getLogs lib oktaClient seconds e s =
        Fatal (''Unable to write to output: '' @ err) (Rotate s3)"
      using g pos pollEvery_copy_write_fails [OF d k wr, of t]
      by (simp add: pollEvery_round_def)
    moreover have "saved (Rotate s3) = saved s"
      using getEvents_Done [OF g] drainWait_Done [OF d] consume_Done [OF k]
      by (auto simp: Rotate_def)
    ultimately show ?thesis by (simp add: round)
  qed
  from a b c show ?thesis by blast
qed

text \<open>
  What a round that ends normally with records has handed to the outputs: the lines
  of the temp file, which with the message still in the consumer's hand are all the
  messages of the fetch. The file lacks that message when there is one.
\<close>

lemma written_but_the_message_in_hand:
  assumes "pollEvery_round getLogs lib oktaClient seconds e s = Done s'"
    and "getLogs lib oktaClient (LastPollTimestamp s) (Format e (now e)) (answers e)
           \<lparr>sent = [], slept = [], channel = []\<rparr> = Returned ((count, None), script', w')"
    and "0 < count"
  shows "\<exists>batch. outputs s' = outputs s @ [(batch, Format e (now e))] \<and>
     batch @ held s' = tmpFile s @ held s @ chnMessages s @ channel w'"
  using pollEvery_round_Done [OF assms(1)] assms(2,3) by auto

lemma getEvents_env123:
  "getEvents GetLogs stubLib stubClient env123 ''t0'' sys0 =
     Done (3, 1, sys0\<lparr>chnMessages := [''2'', ''3''], tmpFile := [''1'']\<rparr>)"
  by (simp add: getEvents_def env123_def GetLogs_stub_123 sys0_def consumerStep_def
        handleMessage_def maxMessages_def eval_nat_numeral)

lemma pollEvery_round_env123:
  "pollEvery_round GetLogs stubLib stubClient 30 env123 sys0 =
     Done (sys0\<lparr>outputs := [([''1'', ''2'', ''3''], ''t1'')], LastPollTimestamp := ''t1'',
                saved := Some ''t1'',
                calls := [CallAfter 1, CallAfter 1, CallRotate, CallWriteToOutputs ''t1'', CallRemove,
                          CallSave ''t1'', CallAfter 30]\<rparr>)"
proof -
  have d: "drainWait env123 (waits env123) (sys0\<lparr>chnMessages := [''2'', ''3''], tmpFile := [''1'']\<rparr>) =
      Done (sys0\<lparr>chnMessages := [], inHand := Some ''3'', tmpFile := [''1'', ''2''],
                 calls := [CallAfter 1, CallAfter 1]\<rparr>)"
    by (simp add: drainWait.simps env123_def sys0_def consumerStep_def handleMessage_def
          eval_nat_numeral)
  have ts: "LastPollTimestamp sys0 = ''t0''"
    by (simp add: sys0_def)
  show ?thesis
    unfolding pollEvery_round_def ts getEvents_env123
    by (simp add: pollEvery_copy_def d)
       (simp add: env123_def sys0_def consumerStep_def handleMessage_def WriteToOutputs_def
          Rotate_def Remove_def Save_def stubFormat_def)
qed

text \<open>
  C1 fails in its second half. The wait before the rotation tests the length of the
  channel only, and the consumer takes a message off the channel before it writes it.
  In \<open>envRace\<close> the consumer has written \<open>1\<close> and \<open>2\<close> and holds \<open>3\<close> when
  \<open>GetLogs\<close> returns: the channel is empty, the file with \<open>1\<close> and \<open>2\<close> is rotated
  and written to the outputs, and the timestamp is set to \<open>t1\<close> and saved while \<open>3\<close>
  has reached neither the file nor the outputs.
\<close>

theorem C1_last_record_missed:
  "pollEvery_rounds GetLogs stubLib stubClient 30 [envRace] sys0 =
     Done (sys0\<lparr>inHand := Some ''3'', outputs := [([''1'', ''2''], ''t1'')],
                LastPollTimestamp := ''t1'', saved := Some ''t1'',
                calls := [CallRotate, CallWriteToOutputs ''t1'', CallRemove, CallSave ''t1'',
                          CallAfter 30]\<rparr>)"
proof -
  have g: "getEvents GetLogs stubLib stubClient envRace ''t0'' sys0 =
      Done (3, 1, sys0\<lparr>inHand := Some ''3'', tmpFile := [''1'', ''2'']\<rparr>)"
    by (simp add: getEvents_def envRace_def env123_def GetLogs_stub_123 sys0_def consumerStep_def
          handleMessage_def maxMessages_def eval_nat_numeral)
  have d: "drainWait envRace (waits envRace) (sys0\<lparr>inHand := Some ''3'', tmpFile := [''1'', ''2'']\<rparr>) =
      Done (sys0\<lparr>inHand := Some ''3'', tmpFile := [''1'', ''2'']\<rparr>)"
    by (simp add: drainWait.simps sys0_def)
  have ts: "LastPollTimestamp sys0 = ''t0''"
    by (simp add: sys0_def)
  have "pollEvery_round GetLogs stubLib stubClient 30 envRace sys0 =
     Done (sys0\<lparr>inHand := Some ''3'', outputs := [([''1'', ''2''], ''t1'')],
                LastPollTimestamp := ''t1'', saved := Some ''t1'',
                calls := [CallRotate, CallWriteToOutputs ''t1'', CallRemove, CallSave ''t1'',
                          CallAfter 30]\<rparr>)"
    unfolding pollEvery_round_def ts g
    by (simp add: pollEvery_copy_def d)
       (simp add: envRace_def env123_def sys0_def WriteToOutputs_def Rotate_def Remove_def
          Save_def stubFormat_def)
  then show ?thesis by simp
qed

text \<open>
  C7. When \<open>getEvents\<close> returns the count 0, the round makes no call but \<open>state.Save\<close>
  and the wait for the next poll: no wait for the channel, no rotation, no write to the
  outputs, no removal. The timestamp is set to the time taken at the start of the fetch,
  and saved when \<open>state.Save\<close> succeeds.
\<close>

theorem C7_empty_round_advances:
  assumes "getEvents getLogs lib oktaClient e (LastPollTimestamp s) s = Done (0, t, s1)"
  shows "\<exists>s'. pollEvery_round getLogs lib oktaClient seconds e s = Done s' \<and>
     t = now e \<and> LastPollTimestamp s' = Format e (now e) \<and>
     saved s' = (if Save_ok e then Some (Format e (now e)) else saved s) \<and>
     calls s' = calls s @ [CallSave (Format e (now e)), CallAfter seconds] \<and>
     LastFile s' = LastFile s \<and> outputs s' = outputs s \<and>
     tmpFile s' = tmpFile s1 \<and> chnMessages s' = chnMessages s1 \<and> inHand s' = inHand s1"
  using getEvents_Done [OF assms] assms
  by (auto simp: pollEvery_round_def Let_def Save_def)

theorem C7_empty_round_advances_witness:
  "pollEvery_round GetLogs stubLib stubClient 30 envEmpty sys0 =
     Done (sys0\<lparr>LastPollTimestamp := ''t2'', saved := Some ''t2'',
                calls := [CallSave ''t2'', CallAfter 30]\<rparr>)"
proof -
  have g: "getEvents GetLogs stubLib stubClient envEmpty (LastPollTimestamp sys0) sys0 =
      Done (0, 2, sys0)"
    by (simp add: getEvents_def envEmpty_def env123_def GetLogs_stub_empty sys0_def maxMessages_def
          consumerStep_def eval_nat_numeral)
  from C7_empty_round_advances [OF g, of 30] obtain s' where
    "pollEvery_round GetLogs stubLib stubClient 30 envEmpty sys0 = Done s'"
    "LastPollTimestamp s' = Format envEmpty (now envEmpty)"
    "saved s' = (if Save_ok envEmpty then Some (Format envEmpty (now envEmpty)) else saved sys0)"
    "calls s' = calls sys0 @ [CallSave (Format envEmpty (now envEmpty)), CallAfter 30]"
    "LastFile s' = LastFile sys0" "outputs s' = outputs sys0"
    "tmpFile s' = tmpFile sys0" "chnMessages s' = chnMessages sys0" "inHand s' = inHand sys0"
    by blast
  then show ?thesis
    by (cases s') (simp add: sys0_def envEmpty_def env123_def stubFormat_def)
qed

end
